theory Spec2Isabelle
  imports Main
begin

section \<open>Strings\<close>

text \<open>
  JavaScript strings are modelled as \<^typ>\<open>string\<close>. \<open>startsWith\<close> is the test behind the
  attribute selector \<^verbatim>\<open>[href^="..."]\<close>, \<open>includesStr\<close> is \<^verbatim>\<open>String.prototype.includes\<close> and the
  test behind \<^verbatim>\<open>[class*="..."]\<close>.
\<close>

fun startsWith :: "string \<Rightarrow> string \<Rightarrow> bool" where
  "startsWith s [] = True"
| "startsWith [] (p # ps) = False"
| "startsWith (c # cs) (p # ps) = (c = p \<and> startsWith cs ps)"

fun includesStr :: "string \<Rightarrow> string \<Rightarrow> bool" where
  "includesStr [] sub = (sub = [])"
| "includesStr (c # cs) sub = (startsWith (c # cs) sub \<or> includesStr cs sub)"

text \<open>
  A character of a \<^typ>\<open>string\<close> stands for the code unit of the same number, so the
  strings modelled are those of code units below 256. The white space and line terminators
  \<^verbatim>\<open>String.prototype.trim\<close> removes are, in that range: tab, line feed, vertical tab, form
  feed, carriage return, space and the no-break space \<^verbatim>\<open>U+00A0\<close>. (The others, such as
  \<^verbatim>\<open>U+2028\<close> and \<^verbatim>\<open>U+FEFF\<close>, lie beyond the range.)
\<close>

definition isSpace :: "char \<Rightarrow> bool" where
  "isSpace c =
     (c \<in> set [CHR 0x09, CHR 0x0A, CHR 0x0B, CHR 0x0C, CHR 0x0D, CHR 0x20, CHR 0xA0])"

text \<open>\<^verbatim>\<open>String.prototype.trim\<close>: white space is removed from both ends.\<close>

definition trim :: "string \<Rightarrow> string" where
  "trim s = rev (dropWhile isSpace (rev (dropWhile isSpace s)))"

text \<open>
  The tokens of a \<^verbatim>\<open>class\<close> attribute (\<^verbatim>\<open>classList\<close>): the maximal runs without ASCII white
  space as the DOM defines it (tab, line feed, form feed, carriage return, space).
\<close>

definition isAsciiWhitespace :: "char \<Rightarrow> bool" where
  "isAsciiWhitespace c = (c \<in> set [CHR 0x09, CHR 0x0A, CHR 0x0C, CHR 0x0D, CHR 0x20])"

fun tokens :: "string \<Rightarrow> string \<Rightarrow> string list" where
  "tokens acc [] = (if acc = [] then [] else [rev acc])"
| "tokens acc (c # cs) =
     (if isAsciiWhitespace c then (if acc = [] then tokens [] cs else rev acc # tokens [] cs)
      else tokens (c # acc) cs)"

definition classList :: "string \<Rightarrow> string list" where
  "classList cls = tokens [] cls"

text \<open>
  \<^verbatim>\<open>Number.prototype.toString\<close> on the integers the counter takes: decimal digits, with a sign
  for a negative number.
\<close>

definition digitChar :: "nat \<Rightarrow> char" where
  "digitChar n = ''0123456789'' ! (n mod 10)"

function toDecimal :: "nat \<Rightarrow> string" where
  "toDecimal n = (if n < 10 then [digitChar n] else toDecimal (n div 10) @ [digitChar n])"
  by pat_completeness auto
termination
  by (relation "measure id") auto

definition toString :: "int \<Rightarrow> string" where
  "toString k = (if k < 0 then CHR ''-'' # toDecimal (nat (- k)) else toDecimal (nat k))"

text \<open>Reading a decimal numeral back, to say what "decimal representation" means.\<close>

definition digitValue :: "char \<Rightarrow> nat" where
  "digitValue c = of_char c - 48"

definition fromDecimal :: "string \<Rightarrow> nat" where
  "fromDecimal s = foldl (\<lambda>a c. 10 * a + digitValue c) 0 s"

section \<open>The document\<close>

text \<open>
  An element of the page: its identity (the object a \<^verbatim>\<open>WeakSet\<close> or an attribute table is
  keyed by), its local name (lower case, which is what a type selector matches in an HTML
  document), its \<^verbatim>\<open>className\<close> (elements are HTML elements, whose \<^verbatim>\<open>className\<close> is a
  string), its \<^verbatim>\<open>href\<close> attribute, its \<^verbatim>\<open>textContent\<close> and its child elements. The script
  never changes any of these. A document is the tree under its root element; its elements
  are distinct objects, so each identity occurs once in it.
\<close>

datatype node =
  Element (ident: nat) (localName: string) (className: string) (href: "string option")
    (textContent: string) (children: "node list")

text \<open>The elements of a subtree in document order, the root first.\<close>

fun preorder :: "node \<Rightarrow> node list" where
  "preorder (Element i l c h t ch) = Element i l c h t ch # concat (map preorder ch)"

text \<open>What \<^verbatim>\<open>element.querySelectorAll('*')\<close> ranges over: the proper descendants.\<close>

definition descendants :: "node \<Rightarrow> node list" where
  "descendants n = concat (map preorder (children n))"

text \<open>
  The chain \<^verbatim>\<open>e.parentElement\<close>, \<^verbatim>\<open>e.parentElement.parentElement\<close>, ... of the element with
  identity \<open>i\<close>, nearest first: the elements of the document that have it as a proper
  descendant (document order lists them outermost first).
\<close>

definition ancestors :: "node \<Rightarrow> nat \<Rightarrow> node list" where
  "ancestors doc i = rev (filter (\<lambda>n. i \<in> set (map ident (descendants n))) (preorder doc))"

text \<open>The element of the document with a given identity; \<open>None\<close> when it is not attached.\<close>

definition getElement :: "node \<Rightarrow> nat \<Rightarrow> node option" where
  "getElement doc i = find (\<lambda>n. ident n = i) (preorder doc)"

text \<open>\<^verbatim>\<open>document.contains(node)\<close>\<close>

definition contains :: "node \<Rightarrow> nat \<Rightarrow> bool" where
  "contains doc i = (getElement doc i \<noteq> None)"

text \<open>The selectors of the script.\<close>

definition sellerLinkSelector :: "node \<Rightarrow> bool" where
  \<comment> \<open>\<^verbatim>\<open>a[href^="/sellers/"]\<close>\<close>
  "sellerLinkSelector n =
     (localName n = ''a'' \<and> (case href n of None \<Rightarrow> False | Some h \<Rightarrow> startsWith h ''/sellers/''))"

definition listingLinkSelector :: "node \<Rightarrow> bool" where
  \<comment> \<open>\<^verbatim>\<open>a[href^="/listings/"]\<close>\<close>
  "listingLinkSelector n =
     (localName n = ''a'' \<and> (case href n of None \<Rightarrow> False | Some h \<Rightarrow> startsWith h ''/listings/''))"

definition imgSelector :: "node \<Rightarrow> bool" where
  \<comment> \<open>\<^verbatim>\<open>img\<close>\<close>
  "imgSelector n = (localName n = ''img'')"

definition surfaceSelector :: "node \<Rightarrow> bool" where
  \<comment> \<open>\<^verbatim>\<open>[class*="fabkit-Surface-root"]\<close>\<close>
  "surfaceSelector n = includesStr (className n) ''fabkit-Surface-root''"

definition stackSelector :: "node \<Rightarrow> bool" where
  \<comment> \<open>\<^verbatim>\<open>div[class*="fabkit-Stack"]\<close>\<close>
  "stackSelector n = (localName n = ''div'' \<and> includesStr (className n) ''fabkit-Stack'')"

definition ellipsisWrapperSelector :: "node \<Rightarrow> bool" where
  \<comment> \<open>\<^verbatim>\<open>.fabkit-Typography-ellipsisWrapper\<close>\<close>
  "ellipsisWrapperSelector n = (''fabkit-Typography-ellipsisWrapper'' \<in> set (classList (className n)))"

text \<open>\<^verbatim>\<open>element.querySelector(sel)\<close>: the first proper descendant that matches.\<close>

definition querySelector :: "node \<Rightarrow> (node \<Rightarrow> bool) \<Rightarrow> node option" where
  "querySelector n sel = find sel (descendants n)"

section \<open>Container resolution (\<^verbatim>\<open>ElementCache.findItemContainer\<close>)\<close>

text \<open>
  Strategy 1, the loop \<^verbatim>\<open>while (current && maxDepth > 0)\<close>: the list is the chain
  \<^verbatim>\<open>current\<close>, \<^verbatim>\<open>current.parentElement\<close>, ... (empty when \<^verbatim>\<open>current\<close> is null).
\<close>

fun strategy1 :: "node list \<Rightarrow> nat \<Rightarrow> node option" where
  "strategy1 [] maxDepth = None"
| "strategy1 (current # up) maxDepth =
     (if maxDepth > 0 then
        (let hasProductLink = querySelector current listingLinkSelector;
             hasImage = querySelector current imgSelector;
             hasFabkitClasses = (className current \<noteq> [] \<and> includesStr (className current) ''fabkit-'')
         in if hasProductLink \<noteq> None \<and> hasImage \<noteq> None
               \<and> (hasFabkitClasses \<or> querySelector current surfaceSelector \<noteq> None)
            then Some current
            else strategy1 up (maxDepth - 1))
      else None)"

text \<open>\<^verbatim>\<open>element.closest(sel)\<close>: the element itself or its nearest ancestor that matches.\<close>

definition closest :: "node \<Rightarrow> node \<Rightarrow> (node \<Rightarrow> bool) \<Rightarrow> node option" where
  "closest doc n sel = find sel (n # ancestors doc (ident n))"

text \<open>
  Strategy 2, the loop \<^verbatim>\<open>while (parent && parent.classList.contains('fabkit-Stack-root'))\<close>:
  the list is the chain \<^verbatim>\<open>parent\<close>, \<^verbatim>\<open>parent.parentElement\<close>, ...
\<close>

fun stackWalk :: "node \<Rightarrow> node list \<Rightarrow> node" where
  "stackWalk productContainer [] = productContainer"
| "stackWalk productContainer (parent # up) =
     (if ''fabkit-Stack-root'' \<in> set (classList (className parent))
      then stackWalk parent up
      else productContainer)"

definition findItemContainer :: "node \<Rightarrow> node \<Rightarrow> node option" where
  "findItemContainer doc sellerLink =
     (case strategy1 (ancestors doc (ident sellerLink)) 10 of
        Some current \<Rightarrow> Some current
      | None \<Rightarrow>
          (case closest doc sellerLink stackSelector of
             None \<Rightarrow> None
           | Some stackContainer \<Rightarrow>
               (let productContainer =
                      stackWalk stackContainer (ancestors doc (ident stackContainer));
                    hasProductLink = querySelector productContainer listingLinkSelector;
                    hasImage = querySelector productContainer imgSelector
                in if hasProductLink \<noteq> None \<and> hasImage \<noteq> None
                   then Some productContainer else None)))"

text \<open>
  The resolution as the specification words it: the first of the nearest ten ancestors that
  qualifies; failing that, the outermost stack container above the nearest stack ancestor,
  if it holds a listing link and an image.
\<close>

definition containsListingLink :: "node \<Rightarrow> bool" where
  "containsListingLink n = (\<exists>d \<in> set (descendants n). listingLinkSelector d)"

definition containsImage :: "node \<Rightarrow> bool" where
  "containsImage n = (\<exists>d \<in> set (descendants n). imgSelector d)"

definition hasCardMarker :: "node \<Rightarrow> bool" where
  "hasCardMarker n = includesStr (className n) ''fabkit-''"

definition containsSurfaceMarker :: "node \<Rightarrow> bool" where
  "containsSurfaceMarker n = (\<exists>d \<in> set (descendants n). surfaceSelector d)"

definition qualifies :: "node \<Rightarrow> bool" where
  "qualifies n =
     (containsListingLink n \<and> containsImage n \<and> (hasCardMarker n \<or> containsSurfaceMarker n))"

definition isStackContainer :: "node \<Rightarrow> bool" where
  "isStackContainer n = (''fabkit-Stack-root'' \<in> set (classList (className n)))"

definition findItemContainerSpec :: "node \<Rightarrow> node \<Rightarrow> node option" where
  "findItemContainerSpec doc sellerLink =
     (case find qualifies (take 10 (ancestors doc (ident sellerLink))) of
        Some c \<Rightarrow> Some c
      | None \<Rightarrow>
          (case find stackSelector (ancestors doc (ident sellerLink)) of
             None \<Rightarrow> None
           | Some nearest \<Rightarrow>
               (let outermost =
                      last (nearest # takeWhile isStackContainer (ancestors doc (ident nearest)))
                in if containsListingLink outermost \<and> containsImage outermost
                   then Some outermost else None)))"

section \<open>The state\<close>

text \<open>The outbound message of the script.\<close>

record badgeMessage =
  action :: string
  badgeText :: string
  color :: string

text \<open>The errors \<^verbatim>\<open>MessageValidator.validate\<close> throws.\<close>

datatype error =
  InvalidMessageFormat | InvalidAction | InvalidUsernamesFormat | InvalidUsernameType
  | InvalidShowCountFormat

text \<open>What the script writes to the console.\<close>

datatype logEntry = InvalidMessageReceived error | ExtensionContextInvalid

text \<open>
  The fields of the \<^verbatim>\<open>FabFilter\<close> instance (\<open>processedElements\<close> is the \<^verbatim>\<open>WeakSet\<close> of its
  \<^verbatim>\<open>ElementCache\<close>, \<open>resourceTimers\<close> the timer list of its resource manager) together with
  the parts of the browser the script reads and writes: the document, the two marker
  attributes \<^verbatim>\<open>data-filtered\<close> and \<^verbatim>\<open>data-filtered-processed\<close> of every element (by identity,
  attached or not), whether \<^verbatim>\<open>chrome.runtime.id\<close> is set, the messages handed to
  \<^verbatim>\<open>chrome.runtime.sendMessage\<close>, the console, the clock in milliseconds, the timers set and
  neither fired nor cleared (handle and due time), the number of timer handles issued, and
  the number of queued animation-frame callbacks. \<open>resolved\<close> records the links
  \<^verbatim>\<open>findItemContainer\<close> has been called on, in call order.
\<close>

record state =
  filteredUsernames :: "string set"
  showBlockedCount :: bool
  blockedCount :: int
  processedElements :: "nat set"
  pendingMutations :: "nat list"
  mutationTimeout :: "nat option"
  resourceTimers :: "nat list"
  document :: node
  dataFiltered :: "nat \<Rightarrow> string option"
  dataFilteredProcessed :: "nat \<Rightarrow> string option"
  runtimeId :: bool
  sent :: "badgeMessage list"
  console :: "logEntry list"
  clock :: nat
  timers :: "(nat \<times> nat) list"
  timersIssued :: nat
  frames :: nat
  resolved :: "nat list"

text \<open>
  The state after \<^verbatim>\<open>new FabFilter()\<close> on a page whose elements carry neither marker
  attribute.
\<close>

definition newFabFilter :: "node \<Rightarrow> bool \<Rightarrow> state" where
  "newFabFilter doc rt =
     \<lparr>filteredUsernames = {}, showBlockedCount = False, blockedCount = 0,
      processedElements = {}, pendingMutations = [], mutationTimeout = None,
      resourceTimers = [], document = doc, dataFiltered = (\<lambda>_. None),
      dataFilteredProcessed = (\<lambda>_. None), runtimeId = rt, sent = [], console = [],
      clock = 0, timers = [], timersIssued = 0, frames = 0, resolved = []\<rparr>"

section \<open>The badge\<close>

definition sendMessageSafely :: "badgeMessage \<Rightarrow> state \<Rightarrow> state" where
  "sendMessageSafely m s = (if runtimeId s then s\<lparr>sent := sent s @ [m]\<rparr> else s)"

definition updateBadge :: "state \<Rightarrow> state" where
  "updateBadge s =
     (if showBlockedCount s then
        sendMessageSafely
          \<lparr>action = ''updateBadge'',
           badgeText = (if blockedCount s > 0 then toString (blockedCount s) else ''''),
           color = (if blockedCount s > 0 then ''#f44336'' else ''#4CAF50'')\<rparr> s
      else
        sendMessageSafely \<lparr>action = ''updateBadge'', badgeText = '''', color = ''#4CAF50''\<rparr> s)"

section \<open>Discovery (\<^verbatim>\<open>ElementCache.findElementsInNode\<close>)\<close>

text \<open>The argument of \<^verbatim>\<open>findElementsInNode\<close>: the document or an element.\<close>

datatype searchNode = TheDocument | AnElement node

text \<open>\<^verbatim>\<open>searchRoot.querySelectorAll(sel)\<close>\<close>

definition querySelectorAll :: "node \<Rightarrow> searchNode \<Rightarrow> (node \<Rightarrow> bool) \<Rightarrow> node list" where
  "querySelectorAll doc root sel =
     (case root of TheDocument \<Rightarrow> filter sel (preorder doc)
                 | AnElement n \<Rightarrow> filter sel (descendants n))"

text \<open>
  The loop over the links. A result \<^verbatim>\<open>{ link, parent }\<close> is the pair \<open>(link, parent)\<close>; the
  results come in the order they are pushed.
\<close>

fun findLoop :: "node list \<Rightarrow> state \<Rightarrow> (node \<times> node) list \<times> state" where
  "findLoop [] s = ([], s)"
| "findLoop (link # links) s =
     (if ident link \<in> processedElements s then findLoop links s
      else
        (let s1 = s\<lparr>resolved := resolved s @ [ident link]\<rparr> in
         case findItemContainer (document s1) link of
           None \<Rightarrow> findLoop links s1
         | Some parent \<Rightarrow>
             if dataFilteredProcessed s1 (ident parent) = None then
               (let s2 = s1\<lparr>processedElements := insert (ident link) (processedElements s1)\<rparr>;
                    s3 = s2\<lparr>dataFilteredProcessed :=
                              (dataFilteredProcessed s2)(ident parent \<mapsto> ''true'')\<rparr>;
                    r = findLoop links s3
                in ((link, parent) # fst r, snd r))
             else findLoop links s1))"

definition findElementsInNode :: "searchNode \<Rightarrow> state \<Rightarrow> (node \<times> node) list \<times> state" where
  "findElementsInNode node s =
     findLoop (querySelectorAll (document s) node sellerLinkSelector) s"

section \<open>The filter engine\<close>

definition filterElement :: "node \<times> node \<Rightarrow> state \<Rightarrow> state" where
  "filterElement e s =
     (case e of (link, parent) \<Rightarrow>
        (case querySelector link ellipsisWrapperSelector of
           None \<Rightarrow> s
         | Some usernameWrapper \<Rightarrow>
             (let username = trim (textContent usernameWrapper) in
              if username = [] then s
              else
                (let shouldFilter = (username \<in> filteredUsernames s);
                     isCurrentlyFiltered = (dataFiltered s (ident parent) \<noteq> None)
                 in if shouldFilter \<and> \<not> isCurrentlyFiltered then
                      s\<lparr>dataFiltered := (dataFiltered s)(ident parent \<mapsto> ''true''),
                        blockedCount := blockedCount s + 1\<rparr>
                    else if \<not> shouldFilter \<and> isCurrentlyFiltered then
                      s\<lparr>dataFiltered := (dataFiltered s)(ident parent := None),
                        blockedCount := blockedCount s - 1\<rparr>
                    else s))))"

definition filterExistingContent :: "state \<Rightarrow> state" where
  "filterExistingContent s =
     (let r = findElementsInNode TheDocument s
      in updateBadge (fold filterElement (fst r) (snd r)))"

text \<open>The body of the two \<^verbatim>\<open>forEach\<close> loops of \<^verbatim>\<open>resetAndRefilter\<close>.\<close>

definition removeMarkers :: "node \<Rightarrow> state \<Rightarrow> state" where
  "removeMarkers element s =
     s\<lparr>dataFiltered := (dataFiltered s)(ident element := None),
       dataFilteredProcessed := (dataFilteredProcessed s)(ident element := None)\<rparr>"

definition resetAndRefilter :: "state \<Rightarrow> state" where
  "resetAndRefilter s =
     (let s1 = s\<lparr>blockedCount := 0\<rparr>;
          s2 = s1\<lparr>processedElements := {}\<rparr>;
          allProcessed =
            filter (\<lambda>n. dataFilteredProcessed s2 (ident n) = Some ''true'') (preorder (document s2));
          s3 = fold removeMarkers allProcessed s2;
          filtered = filter (\<lambda>n. dataFiltered s3 (ident n) = Some ''true'') (preorder (document s3));
          s4 = fold removeMarkers filtered s3
      in filterExistingContent s4)"

section \<open>Inbound messages\<close>

text \<open>
  A message is a JSON value or \<^verbatim>\<open>undefined\<close>. The payload of a number is never inspected
  beyond its truthiness.
\<close>

datatype jsval =
  JUndefined | JNull | JBool bool | JNumber int | JString string
  | JArray "jsval list" | JObject "(string \<times> jsval) list"

definition truthy :: "jsval \<Rightarrow> bool" where
  "truthy v =
     (case v of JUndefined \<Rightarrow> False | JNull \<Rightarrow> False | JBool b \<Rightarrow> b | JNumber n \<Rightarrow> n \<noteq> 0
              | JString s \<Rightarrow> s \<noteq> [] | JArray _ \<Rightarrow> True | JObject _ \<Rightarrow> True)"

text \<open>\<^verbatim>\<open>typeof v === 'object'\<close>\<close>

definition typeofObject :: "jsval \<Rightarrow> bool" where
  "typeofObject v =
     (case v of JNull \<Rightarrow> True | JArray _ \<Rightarrow> True | JObject _ \<Rightarrow> True | _ \<Rightarrow> False)"

text \<open>Reading a named property: \<^verbatim>\<open>undefined\<close> where there is none.\<close>

definition getProp :: "jsval \<Rightarrow> string \<Rightarrow> jsval" where
  "getProp v k =
     (case v of JObject kvs \<Rightarrow> (case map_of kvs k of None \<Rightarrow> JUndefined | Some x \<Rightarrow> x)
              | _ \<Rightarrow> JUndefined)"

definition isString :: "jsval \<Rightarrow> bool" where
  "isString v = (case v of JString _ \<Rightarrow> True | _ \<Rightarrow> False)"

definition validate :: "jsval \<Rightarrow> error + bool" where
  "validate message =
     (if \<not> truthy message \<or> \<not> typeofObject message then Inl InvalidMessageFormat
      else if getProp message ''action''
                \<notin> set [JString ''updateFilters'', JString ''updateShowCount'']
      then Inl InvalidAction
      else if getProp message ''action'' = JString ''updateFilters'' then
        (case getProp message ''usernames'' of
           JArray usernames \<Rightarrow>
             if list_all isString usernames then Inr True else Inl InvalidUsernameType
         | _ \<Rightarrow> Inl InvalidUsernamesFormat)
      else if getProp message ''action'' = JString ''updateShowCount'' then
        (case getProp message ''showCount'' of
           JBool _ \<Rightarrow> Inr True
         | _ \<Rightarrow> Inl InvalidShowCountFormat)
      else Inr True)"

text \<open>\<^verbatim>\<open>new Set(message.usernames)\<close> of an array of strings.\<close>

definition newSet :: "jsval \<Rightarrow> string set" where
  "newSet v =
     (case v of JArray xs \<Rightarrow> set (concat (map (\<lambda>x. case x of JString u \<Rightarrow> [u] | _ \<Rightarrow> []) xs))
              | _ \<Rightarrow> {})"

definition handleMessage :: "jsval \<Rightarrow> state \<Rightarrow> state" where
  "handleMessage message s =
     (case validate message of
        Inl e \<Rightarrow> s\<lparr>console := console s @ [InvalidMessageReceived e]\<rparr>
      | Inr _ \<Rightarrow>
          if getProp message ''action'' = JString ''updateFilters'' then
            resetAndRefilter (s\<lparr>filteredUsernames := newSet (getProp message ''usernames'')\<rparr>)
          else if getProp message ''action'' = JString ''updateShowCount'' then
            updateBadge (s\<lparr>showBlockedCount := (getProp message ''showCount'' = JBool True)\<rparr>)
          else s)"

text \<open>The message shapes the specification recognises.\<close>

definition recognized :: "jsval \<Rightarrow> bool" where
  "recognized message =
     (case message of
        JObject kvs \<Rightarrow>
          (map_of kvs ''action'' = Some (JString ''updateFilters'')
             \<and> (case map_of kvs ''usernames'' of
                   Some (JArray us) \<Rightarrow> list_all isString us | _ \<Rightarrow> False))
          \<or> (map_of kvs ''action'' = Some (JString ''updateShowCount'')
             \<and> (case map_of kvs ''showCount'' of Some (JBool _) \<Rightarrow> True | _ \<Rightarrow> False))
      | _ \<Rightarrow> False)"

section \<open>The mutation watcher\<close>

text \<open>A node handed to the observer: an element (by identity) or a node of another type.\<close>

datatype domNode = ElementNode nat | OtherNode

record mutationRecord =
  mutationType :: string
  addedNodes :: "domNode list"

text \<open>\<^verbatim>\<open>Set.prototype.add\<close> on the pending set, kept in insertion order.\<close>

definition addPending :: "nat \<Rightarrow> state \<Rightarrow> state" where
  "addPending i s =
     (if i \<in> set (pendingMutations s) then s
      else s\<lparr>pendingMutations := pendingMutations s @ [i]\<rparr>)"

definition batchMutation :: "mutationRecord \<Rightarrow> state \<Rightarrow> state" where
  "batchMutation mutation s =
     (if mutationType mutation \<noteq> ''childList'' then s
      else fold (\<lambda>node s. case node of ElementNode i \<Rightarrow> addPending i s | OtherNode \<Rightarrow> s)
             (addedNodes mutation) s)"

definition clearTimeout :: "nat \<Rightarrow> state \<Rightarrow> state" where
  "clearTimeout h s = s\<lparr>timers := filter (\<lambda>t. fst t \<noteq> h) (timers s)\<rparr>"

text \<open>
  \<^verbatim>\<open>resourceManager.setTimeout(fn, delay)\<close>; the only callback ever passed is the one that
  calls \<^verbatim>\<open>processPendingMutations\<close>. Handles are positive.
\<close>

definition setTimeout :: "nat \<Rightarrow> state \<Rightarrow> nat \<times> state" where
  "setTimeout delay s =
     (let timer = Suc (timersIssued s)
      in (timer, s\<lparr>timersIssued := timer,
                   timers := timers s @ [(timer, clock s + delay)],
                   resourceTimers := resourceTimers s @ [timer]\<rparr>))"

text \<open>The callback passed to \<^verbatim>\<open>new MutationObserver\<close>.\<close>

definition observerCallback :: "mutationRecord list \<Rightarrow> state \<Rightarrow> state" where
  "observerCallback mutations s =
     (let s1 = fold batchMutation mutations s
      in if length (pendingMutations s1) > 0 then
           (let s2 = (case mutationTimeout s1 of Some h \<Rightarrow> clearTimeout h s1 | None \<Rightarrow> s1);
                r = setTimeout 100 s2
            in (snd r)\<lparr>mutationTimeout := Some (fst r)\<rparr>)
         else s1)"

text \<open>
  \<^verbatim>\<open>processPendingMutations\<close> queues \<open>frameCallback\<close>, the function it passes to
  \<^verbatim>\<open>requestAnimationFrame\<close>.
\<close>

definition processNode :: "nat \<Rightarrow> state \<Rightarrow> state" where
  "processNode i s =
     (case getElement (document s) i of
        None \<Rightarrow> s
      | Some node \<Rightarrow>
          (let r = findElementsInNode (AnElement node) s
           in fold filterElement (fst r) (snd r)))"

definition frameCallback :: "state \<Rightarrow> state" where
  "frameCallback s =
     (let nodesToProcess = pendingMutations s;
          s1 = s\<lparr>pendingMutations := []\<rparr>
      in updateBadge (fold processNode nodesToProcess s1))"

definition processPendingMutations :: "state \<Rightarrow> state" where
  "processPendingMutations s =
     (if length (pendingMutations s) = 0 then s else s\<lparr>frames := Suc (frames s)\<rparr>)"

section \<open>Start-up and the event loop\<close>

text \<open>
  \<^verbatim>\<open>initialize\<close>, given the two values read from the settings store (an array of strings and a
  boolean, as the popup writes them). Injecting the style sheet and registering the
  observer and the listeners change nothing of the state; the events below are what the
  observer, the timers and the listener then deliver.
\<close>

definition initialize :: "string list \<Rightarrow> bool \<Rightarrow> state \<Rightarrow> state" where
  "initialize usernames showCount s =
     (if \<not> runtimeId s then s\<lparr>console := console s @ [ExtensionContextInvalid]\<rparr>
      else
        (let s1 = s\<lparr>filteredUsernames := set usernames\<rparr>;
             s2 = s1\<lparr>showBlockedCount := showCount\<rparr>;
             s3 = filterExistingContent s2
         in updateBadge s3))"

text \<open>
  What can happen after start-up: the observer is called with mutation records, time passes
  (the timers that fall due fire), the browser runs the queued animation-frame callbacks, a
  message arrives, the page changes its DOM, or the extension context is invalidated.

  A change by the page gives the document a new element tree and may write the two marker
  attributes, which are ordinary attributes to the page: a copy made with
  \<^verbatim>\<open>cloneNode(true)\<close> carries the attributes of its original, and a page script can set or
  remove an attribute of any element. The event lists, for each of the two attributes, the
  values the page writes (\<open>None\<close> removes the attribute), applied in order.
\<close>

definition setAttributes ::
  "(nat \<times> string option) list \<Rightarrow> (nat \<Rightarrow> string option) \<Rightarrow> nat \<Rightarrow> string option" where
  "setAttributes writes table = fold (\<lambda>w t. t(fst w := snd w)) writes table"

datatype event =
  Mutations "mutationRecord list"
  | Elapse nat
  | AnimationFrame
  | Message jsval
  | PageChange node "(nat \<times> string option) list" "(nat \<times> string option) list"
  | ContextInvalidated

definition elapse :: "nat \<Rightarrow> state \<Rightarrow> state" where
  "elapse ms s =
     (let s1 = s\<lparr>clock := clock s + ms\<rparr>;
          due = filter (\<lambda>t. snd t \<le> clock s1) (timers s1);
          s2 = s1\<lparr>timers := filter (\<lambda>t. \<not> snd t \<le> clock s1) (timers s1)\<rparr>
      in fold (\<lambda>t. processPendingMutations) due s2)"

definition animationFrame :: "state \<Rightarrow> state" where
  "animationFrame s = (frameCallback ^^ frames s) (s\<lparr>frames := 0\<rparr>)"

fun step :: "event \<Rightarrow> state \<Rightarrow> state" where
  "step (Mutations records) s = observerCallback records s"
| "step (Elapse ms) s = elapse ms s"
| "step AnimationFrame s = animationFrame s"
| "step (Message m) s = handleMessage m s"
| "step (PageChange doc filtered processed) s =
     s\<lparr>document := doc,
       dataFiltered := setAttributes filtered (dataFiltered s),
       dataFilteredProcessed := setAttributes processed (dataFilteredProcessed s)\<rparr>"
| "step ContextInvalidated s = s\<lparr>runtimeId := False\<rparr>"

definition run :: "event list \<Rightarrow> state \<Rightarrow> state" where
  "run events s = fold step events s"

section \<open>Notions used in the statements and proofs\<close>

text \<open>The two state changes inside the link loop of \<open>findLoop\<close>.\<close>

definition noteResolved :: "node \<Rightarrow> state \<Rightarrow> state" where
  "noteResolved link s = s\<lparr>resolved := resolved s @ [ident link]\<rparr>"

definition markSeen :: "node \<Rightarrow> node \<Rightarrow> state \<Rightarrow> state" where
  "markSeen link parent s =
     s\<lparr>resolved := resolved s @ [ident link],
       processedElements := insert (ident link) (processedElements s),
       dataFilteredProcessed := (dataFilteredProcessed s)(ident parent \<mapsto> ''true'')\<rparr>"

text \<open>The identities of the elements of a document, in document order.\<close>

definition idents :: "node \<Rightarrow> nat list" where
  "idents doc = map ident (preorder doc)"


text \<open>One scan: discovery under a node, then the filter on each result.\<close>

definition scan :: "searchNode \<Rightarrow> state \<Rightarrow> state" where
  "scan node s =
     fold filterElement (fst (findElementsInNode node s)) (snd (findElementsInNode node s))"




text \<open>The state of \<open>resetAndRefilter\<close> just before it calls \<open>filterExistingContent\<close>.\<close>

definition clearMarkers :: "state \<Rightarrow> state" where
  "clearMarkers s =
     (let s2 = s\<lparr>blockedCount := 0, processedElements := {}\<rparr>;
          s3 = fold removeMarkers
                 (filter (\<lambda>n. dataFilteredProcessed s2 (ident n) = Some ''true'')
                    (preorder (document s2))) s2
      in fold removeMarkers
           (filter (\<lambda>n. dataFiltered s3 (ident n) = Some ''true'') (preorder (document s3))) s3)"

text \<open>A message that makes the handler replace the username set and reset.\<close>

definition isFilterUpdate :: "jsval \<Rightarrow> bool" where
  "isFilterUpdate m = (recognized m \<and> getProp m ''action'' = JString ''updateFilters'')"

text \<open>No event of the list is such a message.\<close>

definition noReset :: "event list \<Rightarrow> bool" where
  "noReset es = list_all (\<lambda>e. case e of Message m \<Rightarrow> \<not> isFilterUpdate m | _ \<Rightarrow> True) es"





text \<open>
  Every marker attribute the page writes during the run has the value the script writes,
  or is removed.
\<close>

definition ownValues :: "event list \<Rightarrow> bool" where
  "ownValues es =
     list_all
       (\<lambda>e. case e of
               PageChange d filtered processed \<Rightarrow>
                 list_all (\<lambda>w. snd w = None \<or> snd w = Some ''true'') (filtered @ processed)
             | _ \<Rightarrow> True) es"

text \<open>
  The link \<open>l\<close> is in the processed set and \<open>findItemContainer\<close> has been called on it \<open>n\<close>
  times.
\<close>

definition settled :: "nat \<Rightarrow> nat \<Rightarrow> state \<Rightarrow> bool" where
  "settled l n s = (l \<in> processedElements s \<and> count_list (resolved s) l = n)"

text \<open>
  The product cards of a document: the seller links in document order, and the containers
  they resolve to (each once, by identity). The username a seller link shows is the trimmed
  text of its username element, if it has one; the usernames a card shows are those of the
  seller links that resolve to it.
\<close>

definition sellerLinks :: "node \<Rightarrow> node list" where
  "sellerLinks doc = filter sellerLinkSelector (preorder doc)"

definition resolvesTo :: "node \<Rightarrow> nat \<Rightarrow> node \<Rightarrow> bool" where
  "resolvesTo doc c l = (case findItemContainer doc l of None \<Rightarrow> False | Some p \<Rightarrow> ident p = c)"

definition cards :: "node \<Rightarrow> nat list" where
  "cards doc =
     remdups (concat (map (\<lambda>l. case findItemContainer doc l of None \<Rightarrow> [] | Some p \<Rightarrow> [ident p])
                        (sellerLinks doc)))"

definition sellerName :: "node \<Rightarrow> string option" where
  "sellerName l =
     (case querySelector l ellipsisWrapperSelector of
        None \<Rightarrow> None
      | Some w \<Rightarrow> Some (trim (textContent w)))"

definition sellerNames :: "node \<Rightarrow> nat \<Rightarrow> string list" where
  "sellerNames doc c =
     concat (map (\<lambda>l. case sellerName l of None \<Rightarrow> [] | Some u \<Rightarrow> [u])
               (filter (resolvesTo doc c) (sellerLinks doc)))"

text \<open>The card shows a seller username that is in the username set.\<close>

definition sellerIn :: "string set \<Rightarrow> node \<Rightarrow> nat \<Rightarrow> bool" where
  "sellerIn U doc c = list_ex (\<lambda>u. u \<in> U) (sellerNames doc c)"

text \<open>The card shows a seller username that is not the empty string and is in the username set.\<close>

definition namedSellerIn :: "string set \<Rightarrow> node \<Rightarrow> nat \<Rightarrow> bool" where
  "namedSellerIn U doc c = list_ex (\<lambda>u. u \<noteq> [] \<and> u \<in> U) (sellerNames doc c)"

text \<open>
  What the engine reads for a card: discovery yields a card with the first seller link (in
  document order) that resolves to it, and the filter looks for the username in that link
  only.
\<close>

definition firstSellerLink :: "node \<Rightarrow> nat \<Rightarrow> node option" where
  "firstSellerLink doc c = find (resolvesTo doc c) (sellerLinks doc)"

definition readSeller :: "node \<Rightarrow> nat \<Rightarrow> string option" where
  "readSeller doc c = (case firstSellerLink doc c of None \<Rightarrow> None | Some l \<Rightarrow> sellerName l)"

definition readSellerIn :: "string set \<Rightarrow> node \<Rightarrow> nat \<Rightarrow> bool" where
  "readSellerIn U doc c =
     (case readSeller doc c of None \<Rightarrow> False | Some u \<Rightarrow> u \<noteq> [] \<and> u \<in> U)"

text \<open>
  In every card of the document, the first seller link shows each username that is not
  empty and that a seller link of the card shows. (So it is when a card has one seller
  link, or when all its seller links show the same name.)
\<close>

definition nameInFirstLink :: "node \<Rightarrow> bool" where
  "nameInFirstLink doc =
     list_all (\<lambda>c. list_all (\<lambda>u. u = [] \<or> readSeller doc c = Some u) (sellerNames doc c))
       (cards doc)"

text \<open>The results of discovery that \<open>filterElement\<close> hides.\<close>

definition chosen :: "string set \<Rightarrow> node \<times> node \<Rightarrow> bool" where
  "chosen U e = (case sellerName (fst e) of None \<Rightarrow> False | Some u \<Rightarrow> u \<noteq> [] \<and> u \<in> U)"

text \<open>Every marker attribute has the value the script writes.\<close>

definition engineMarkers :: "state \<Rightarrow> bool" where
  "engineMarkers s =
     (\<forall>i. (dataFiltered s i = None \<or> dataFiltered s i = Some ''true'')
        \<and> (dataFilteredProcessed s i = None \<or> dataFilteredProcessed s i = Some ''true''))"

text \<open>
  A burst of observer callbacks: the first callback, then further callbacks, each a number
  of milliseconds after the one before. The element nodes its \<^verbatim>\<open>childList\<close> records add.
\<close>

definition elementIds :: "domNode list \<Rightarrow> nat list" where
  "elementIds ns = concat (map (\<lambda>n. case n of ElementNode i \<Rightarrow> [i] | OtherNode \<Rightarrow> []) ns)"

definition addedElements :: "mutationRecord list \<Rightarrow> nat list" where
  "addedElements records =
     concat (map (\<lambda>m. if mutationType m = ''childList'' then elementIds (addedNodes m) else [])
               records)"

definition burst :: "mutationRecord list \<Rightarrow> (nat \<times> mutationRecord list) list \<Rightarrow> event list" where
  "burst first rest =
     Mutations first # concat (map (\<lambda>b. [Elapse (fst b), Mutations (snd b)]) rest)"

text \<open>Every later callback comes less than the debounce delay after the one before.\<close>

definition withinWindow :: "(nat \<times> mutationRecord list) list \<Rightarrow> bool" where
  "withinWindow rest = list_all (\<lambda>b. fst b < 100) rest"

text \<open>Nothing is scheduled and nothing is pending.\<close>

definition quiet :: "state \<Rightarrow> bool" where
  "quiet s = (timers s = [] \<and> frames s = 0 \<and> pendingMutations s = [])"

text \<open>
  The watcher just after a callback: no frame is queued; no timer runs while nothing is
  pending; otherwise exactly one timer runs, the one \<open>mutationTimeout\<close> names, due a full
  delay from now.
\<close>

definition armed :: "state \<Rightarrow> bool" where
  "armed s =
     (frames s = 0
      \<and> (if pendingMutations s = [] then timers s = []
          else \<exists>h. timers s = [(h, clock s + 100)] \<and> mutationTimeout s = Some h))"

text \<open>
  The second state differs from the first at most in the pending set, the timers and the
  clock: document, markers, count, cache, username set, toggle, messages sent and console
  are the same.
\<close>

definition untouched :: "state \<Rightarrow> state \<Rightarrow> bool" where
  "untouched s s' =
     (document s' = document s \<and> dataFiltered s' = dataFiltered s
      \<and> dataFilteredProcessed s' = dataFilteredProcessed s \<and> blockedCount s' = blockedCount s
      \<and> processedElements s' = processedElements s \<and> resolved s' = resolved s
      \<and> filteredUsernames s' = filteredUsernames s \<and> showBlockedCount s' = showBlockedCount s
      \<and> runtimeId s' = runtimeId s \<and> sent s' = sent s \<and> console s' = console s)"

section \<open>Example pages, states and events\<close>

text \<open>
  A product card as the resolution expects it: a surface container holding a listing link
  with an image and a seller link whose username element has the given text.
\<close>

definition nameSpan :: "nat \<Rightarrow> string \<Rightarrow> node" where
  "nameSpan i txt = Element i ''span'' ''fabkit-Typography-ellipsisWrapper'' None txt []"

definition exampleLink :: "nat \<Rightarrow> string \<Rightarrow> node" where
  "exampleLink i txt = Element i ''a'' '''' (Some ''/sellers/shop'') '''' [nameSpan (i + 1) txt]"

definition exampleCard :: "nat \<Rightarrow> string \<Rightarrow> node" where
  "exampleCard i txt =
     Element i ''div'' ''fabkit-Surface-root'' None ''''
       [Element (i + 1) ''a'' '''' (Some ''/listings/1'') ''''
          [Element (i + 2) ''img'' '''' None '''' []],
        exampleLink (i + 3) txt]"

definition examplePage :: "node list \<Rightarrow> node" where
  "examplePage cs = Element 0 ''html'' '''' None '''' [Element 1 ''body'' '''' None '''' cs]"

text \<open>A state that shows the count \<open>k\<close> on the badge.\<close>

definition shown :: "int \<Rightarrow> state" where
  "shown k = (newFabFilter (examplePage []) True)\<lparr>showBlockedCount := True, blockedCount := k\<rparr>"

text \<open>A page with one card of seller \<open>bob\<close>, and the engine filtering the given names.\<close>

definition bobPage :: node where
  "bobPage = examplePage [exampleCard 2 '' bob '']"

definition filtering :: "string list \<Rightarrow> node \<Rightarrow> state" where
  "filtering names doc = (newFabFilter doc True)\<lparr>filteredUsernames := set names\<rparr>"

text \<open>A card whose username element holds only white space.\<close>

definition blankPage :: node where
  "blankPage = examplePage [exampleCard 2 '' '']"

text \<open>Messages.\<close>

definition showCountMessage :: "bool \<Rightarrow> jsval" where
  "showCountMessage flag =
     JObject [(''action'', JString ''updateShowCount''), (''showCount'', JBool flag)]"

definition filtersMessage :: "jsval \<Rightarrow> jsval" where
  "filtersMessage usernames =
     JObject [(''action'', JString ''updateFilters''), (''usernames'', usernames)]"

text \<open>The link and the card of \<open>bobPage\<close>, and the state once that card is hidden.\<close>

definition bobLink :: node where
  "bobLink = exampleLink 5 '' bob ''"

definition bobCard :: node where
  "bobCard = exampleCard 2 '' bob ''"

definition hiddenBob :: state where
  "hiddenBob = filterElement (bobLink, bobCard) (filtering [''bob''] bobPage)"

text \<open>The link and the card of \<open>blankPage\<close>.\<close>

definition blankLink :: node where
  "blankLink = exampleLink 5 '' ''"

definition blankCard :: node where
  "blankCard = exampleCard 2 '' ''"

text \<open>
  Example events: a \<^verbatim>\<open>childList\<close> record that adds elements; the page replacing the card of
  \<open>bobPage\<close> by an empty element, and the pass that follows.
\<close>

definition childList :: "nat list \<Rightarrow> mutationRecord" where
  "childList added = \<lparr>mutationType = ''childList'', addedNodes = map ElementNode added\<rparr>"





text \<open>
  A page with a card of \<open>alice\<close> and a card of \<open>bob\<close>; the page replacing the card of
  \<open>alice\<close> by another card of \<open>bob\<close>, and the pass that follows.
\<close>

definition twoSellers :: node where
  "twoSellers = examplePage [exampleCard 2 ''alice'', exampleCard 10 ''bob'']"


text \<open>
  A page where a seller link without a card sits in an element inside another element, and
  the events when the page adds the outer and then the inner element in one burst; and the
  events when an observer record reports the card of \<open>bobPage\<close> again.
\<close>

definition nestedPage :: node where
  "nestedPage =
     examplePage
       [Element 2 ''div'' '''' None ''''
          [Element 3 ''div'' '''' None ''''
             [Element 4 ''a'' '''' (Some ''/sellers/shop'') '''' []]]]"

definition nestedAdded :: "event list" where
  "nestedAdded =
     [PageChange nestedPage [] [], Mutations [childList [2, 3]], Elapse 100, AnimationFrame]"

definition cardReported :: "event list" where
  "cardReported = [Mutations [childList [2]], Elapse 100, AnimationFrame]"

text \<open>Filter-list updates: to the blank username, to \<open>bob\<close> and to \<open>alice\<close>.\<close>

definition blankNames :: jsval where
  "blankNames = filtersMessage (JArray [JString ''''])"

definition bobNames :: jsval where
  "bobNames = filtersMessage (JArray [JString ''bob''])"

definition aliceNames :: jsval where
  "aliceNames = filtersMessage (JArray [JString ''alice''])"

text \<open>
  A card whose seller is linked twice: first by a link around the avatar, which has no
  username element, then by the link that shows the name.
\<close>

definition avatarCard :: "nat \<Rightarrow> string \<Rightarrow> node" where
  "avatarCard i txt =
     Element i ''div'' ''fabkit-Surface-root'' None ''''
       [Element (i + 1) ''a'' '''' (Some ''/listings/1'') ''''
          [Element (i + 2) ''img'' '''' None '''' []],
        Element (i + 3) ''a'' '''' (Some ''/sellers/shop'') ''''
          [Element (i + 4) ''img'' '''' None '''' []],
        exampleLink (i + 5) txt]"

definition avatarPage :: node where
  "avatarPage = examplePage [avatarCard 2 ''bob'']"

text \<open>
  The engine on \<open>twoSellers\<close> once it has hidden the card of \<open>bob\<close>; and the engine on
  \<open>bobPage\<close>, started with \<open>bob\<close> filtered and the count not shown, once an observer record
  has reported the card again.
\<close>

definition bobFiltered :: state where
  "bobFiltered = handleMessage bobNames (newFabFilter twoSellers True)"

definition bobReported :: state where
  "bobReported =
     run [Mutations [childList [2]]] (initialize [''bob''] False (newFabFilter bobPage True))"

text \<open>
  A page to which five cards have been added, the callbacks that report them (after the
  first one), and the engine watching that page, filtering \<open>bob\<close> and showing the count.
\<close>

definition fiveCards :: node where
  "fiveCards =
     examplePage
       [exampleCard 10 ''alice'', exampleCard 20 ''bob'', exampleCard 30 ''carol'',
        exampleCard 40 ''bob'', exampleCard 50 ''dave'']"

definition fiveAdded :: "(nat \<times> mutationRecord list) list" where
  "fiveAdded =
     [(30, [childList [20]]), (99, [childList [30]]), (0, [childList [40]]),
      (60, [childList [50, 10]])]"

definition watching :: state where
  "watching = (filtering [''bob''] fiveCards)\<lparr>showBlockedCount := True\<rparr>"

text \<open>
  A watcher that is not quiet: the timer of an earlier burst has fired and its
  animation-frame callback is still queued (as in a tab that is not being painted). And a
  burst that follows.
\<close>

definition framePending :: state where
  "framePending =
     run [Mutations [childList [2]], Elapse 105]
       ((filtering [''bob''] (examplePage [exampleCard 2 ''bob'', exampleCard 10 ''bob'']))
          \<lparr>showBlockedCount := True\<rparr>)"

definition secondBurst :: "(nat \<times> mutationRecord list) list" where
  "secondBurst = [(50, [childList [10]])]"

section \<open>Decimal numerals\<close>

declare toDecimal.simps [simp del]

lemma digit_cases:
  fixes k :: nat
  assumes "k < 10"
  shows "k = 0 \<or> k = 1 \<or> k = 2 \<or> k = 3 \<or> k = 4 \<or> k = 5 \<or> k = 6 \<or> k = 7 \<or> k = 8 \<or> k = 9"
  using assms by arith

lemma digitValue_nth: "k < 10 \<Longrightarrow> digitValue (''0123456789'' ! k) = k"
  by (drule digit_cases) (auto simp: digitValue_def)

lemma digitValue_digitChar: "digitValue (digitChar n) = n mod 10"
  by (simp add: digitChar_def digitValue_nth)

lemma fromDecimal_toDecimal: "fromDecimal (toDecimal n) = n"
proof (induction n rule: toDecimal.induct)
  case (1 n)
  show ?case
  proof (cases "n < 10")
    case True
    then show ?thesis
      by (subst toDecimal.simps) (simp add: fromDecimal_def digitValue_digitChar)
  next
    case False
    have "fromDecimal (toDecimal n)
            = 10 * fromDecimal (toDecimal (n div 10)) + digitValue (digitChar n)"
      using False by (subst toDecimal.simps) (simp add: fromDecimal_def)
    also have "\<dots> = 10 * (n div 10) + n mod 10"
      using 1 False by (simp add: digitValue_digitChar)
    finally show ?thesis by simp
  qed
qed

section \<open>The badge message\<close>

lemma shown_fields:
  "runtimeId (shown k)" "showBlockedCount (shown k)" "blockedCount (shown k) = k"
  "sent (shown k) = []"
  by (simp_all add: shown_def newFabFilter_def)

lemma filtering_fields:
  "filteredUsernames (filtering names doc) = set names"
  "blockedCount (filtering names doc) = 0"
  "document (filtering names doc) = doc"
  "dataFiltered (filtering names doc) = (\<lambda>_. None)"
  "dataFilteredProcessed (filtering names doc) = (\<lambda>_. None)"
  "processedElements (filtering names doc) = {}"
  "console (filtering names doc) = []"
  "sent (filtering names doc) = []"
  "runtimeId (filtering names doc)"
  by (simp_all add: filtering_def newFabFilter_def)

lemma toString_one: "toString 1 = ''1''"
  by code_simp

text \<open>
  C7. \<open>updateBadge\<close> hands \<open>sendMessageSafely\<close> one message: its text is the decimal numeral
  of \<open>blockedCount\<close> when the count is shown and positive, and empty otherwise; its colour
  is the blocked colour \<^verbatim>\<open>#f44336\<close> in the first case and the neutral colour \<^verbatim>\<open>#4CAF50\<close>
  otherwise. While the extension context is valid the message is appended to the messages
  sent. The text reads back as the count.
\<close>

theorem updateBadge_message:
  "updateBadge s =
     sendMessageSafely
       \<lparr>action = ''updateBadge'',
        badgeText = (if showBlockedCount s \<and> blockedCount s > 0
                     then toString (blockedCount s) else ''''),
        color = (if showBlockedCount s \<and> blockedCount s > 0
                 then ''#f44336'' else ''#4CAF50'')\<rparr> s
   \<and> (runtimeId s \<longrightarrow>
        sent (updateBadge s) =
          sent s @
          [\<lparr>action = ''updateBadge'',
            badgeText = (if showBlockedCount s \<and> blockedCount s > 0
                         then toString (blockedCount s) else ''''),
            color = (if showBlockedCount s \<and> blockedCount s > 0
                     then ''#f44336'' else ''#4CAF50'')\<rparr>])
   \<and> (blockedCount s > 0 \<longrightarrow> int (fromDecimal (toString (blockedCount s))) = blockedCount s)"
  by (simp add: updateBadge_def sendMessageSafely_def toString_def fromDecimal_toDecimal)

theorem updateBadge_message_witness:
  "runtimeId (shown 1) \<and> blockedCount (shown 1) > 0
   \<and> sent (updateBadge (shown 1))
       = [\<lparr>action = ''updateBadge'', badgeText = ''1'', color = ''#f44336''\<rparr>]
   \<and> sent (updateBadge (shown 0))
       = [\<lparr>action = ''updateBadge'', badgeText = '''', color = ''#4CAF50''\<rparr>]
   \<and> fromDecimal (toString (blockedCount (shown 1))) = 1"
  using updateBadge_message [of "shown 1", THEN conjunct2]
    updateBadge_message [of "shown 0", THEN conjunct2]
  by (simp add: shown_fields toString_one)

section \<open>Inbound messages\<close>

lemma recognized_iff_valid: "recognized message \<longleftrightarrow> validate message = Inr True"
  by (cases message)
     (auto simp: recognized_def validate_def getProp_def truthy_def typeofObject_def
           split: option.splits jsval.splits if_splits)

lemma not_recognized_invalid: "\<not> recognized message \<Longrightarrow> \<exists>e. validate message = Inl e"
  by (cases message)
     (auto simp: recognized_def validate_def getProp_def truthy_def typeofObject_def
           split: option.splits jsval.splits if_splits)

text \<open>
  C6. A message of no recognised shape makes \<open>validate\<close> throw; the handler catches the
  error and writes it to the console, and that is all it does: the state is otherwise the
  same, so the username set, the count and every marker are unchanged and no reset runs.
  The handler returns a state for every message: nothing escapes it.
\<close>

theorem handleMessage_rejects:
  assumes "\<not> recognized message"
  shows "\<exists>e. validate message = Inl e
           \<and> handleMessage message s = s\<lparr>console := console s @ [InvalidMessageReceived e]\<rparr>
           \<and> filteredUsernames (handleMessage message s) = filteredUsernames s
           \<and> blockedCount (handleMessage message s) = blockedCount s
           \<and> dataFiltered (handleMessage message s) = dataFiltered s
           \<and> dataFilteredProcessed (handleMessage message s) = dataFilteredProcessed s
           \<and> processedElements (handleMessage message s) = processedElements s
           \<and> sent (handleMessage message s) = sent s"
proof -
  from assms obtain e where "validate message = Inl e"
    using not_recognized_invalid by blast
  then show ?thesis by (simp add: handleMessage_def)
qed

lemma filtersMessage_not_array: "\<not> recognized (filtersMessage (JString ''bob''))"
  by (simp add: recognized_def filtersMessage_def)

lemma filtersMessage_not_array_error:
  "validate (filtersMessage (JString ''bob'')) = Inl InvalidUsernamesFormat"
  by (simp add: validate_def filtersMessage_def getProp_def truthy_def typeofObject_def)

theorem handleMessage_rejects_witness:
  "\<not> recognized (filtersMessage (JString ''bob''))
   \<and> handleMessage (filtersMessage (JString ''bob'')) (filtering [''alice''] bobPage)
       = (filtering [''alice''] bobPage)
           \<lparr>console := [InvalidMessageReceived InvalidUsernamesFormat]\<rparr>
   \<and> filteredUsernames
        (handleMessage (filtersMessage (JString ''bob'')) (filtering [''alice''] bobPage))
       = {''alice''}"
  using handleMessage_rejects [OF filtersMessage_not_array, of "filtering [''alice''] bobPage"]
    filtersMessage_not_array filtersMessage_not_array_error
  by (auto simp: filtering_fields)

text \<open>
  C9. An \<^verbatim>\<open>updateShowCount\<close> message with a boolean flag sets the display toggle and then
  recomputes the badge from the new toggle and the count: while the extension context is
  valid, one badge message is added to the messages sent, with the count as text and the
  blocked colour when the flag is on and the count is positive, and with no text and the
  neutral colour otherwise (in an invalid context nothing is sent). The username set, the
  count, the pending set, the processed links, both markers of every element and the
  document stay as they were.
\<close>

theorem handleMessage_updateShowCount:
  assumes "getProp message ''action'' = JString ''updateShowCount''"
    and "getProp message ''showCount'' = JBool flag"
  shows "handleMessage message s = updateBadge (s\<lparr>showBlockedCount := flag\<rparr>)
     \<and> sent (handleMessage message s) =
         (if runtimeId s then
            sent s @
            [\<lparr>action = ''updateBadge'',
              badgeText = (if flag \<and> blockedCount s > 0 then toString (blockedCount s) else ''''),
              color = (if flag \<and> blockedCount s > 0 then ''#f44336'' else ''#4CAF50'')\<rparr>]
          else sent s)
     \<and> showBlockedCount (handleMessage message s) = flag
     \<and> filteredUsernames (handleMessage message s) = filteredUsernames s
     \<and> blockedCount (handleMessage message s) = blockedCount s
     \<and> pendingMutations (handleMessage message s) = pendingMutations s
     \<and> processedElements (handleMessage message s) = processedElements s
     \<and> dataFiltered (handleMessage message s) = dataFiltered s
     \<and> dataFilteredProcessed (handleMessage message s) = dataFilteredProcessed s
     \<and> document (handleMessage message s) = document s"
proof -
  have v: "validate message = Inr True"
    using assms
    by (cases message) (auto simp: validate_def getProp_def truthy_def typeofObject_def)
  have h: "handleMessage message s = updateBadge (s\<lparr>showBlockedCount := flag\<rparr>)"
    using assms v by (cases flag) (simp_all add: handleMessage_def)
  show ?thesis
    unfolding h by (simp add: updateBadge_def sendMessageSafely_def)
qed

lemma showCountMessage_props:
  "getProp (showCountMessage flag) ''action'' = JString ''updateShowCount''"
  "getProp (showCountMessage flag) ''showCount'' = JBool flag"
  by (simp_all add: showCountMessage_def getProp_def)

lemma bobReported_fields:
  "runtimeId bobReported" "\<not> showBlockedCount bobReported" "blockedCount bobReported = 1"
  "filteredUsernames bobReported = {''bob''}" "pendingMutations bobReported = [2]"
  "processedElements bobReported = {5}"
  "dataFiltered bobReported 2 = Some ''true''"
  "dataFilteredProcessed bobReported 2 = Some ''true''"
  "sent bobReported
     = [\<lparr>action = ''updateBadge'', badgeText = '''', color = ''#4CAF50''\<rparr>,
        \<lparr>action = ''updateBadge'', badgeText = '''', color = ''#4CAF50''\<rparr>]"
  by code_simp+

theorem handleMessage_updateShowCount_witness:
  "getProp (showCountMessage True) ''action'' = JString ''updateShowCount''
   \<and> getProp (showCountMessage True) ''showCount'' = JBool True
   \<and> runtimeId bobReported \<and> \<not> showBlockedCount bobReported
   \<and> showBlockedCount (handleMessage (showCountMessage True) bobReported)
   \<and> sent (handleMessage (showCountMessage True) bobReported)
       = sent bobReported @ [\<lparr>action = ''updateBadge'', badgeText = ''1'', color = ''#f44336''\<rparr>]
   \<and> sent (handleMessage (showCountMessage False)
             (handleMessage (showCountMessage True) bobReported))
       = sent bobReported
         @ [\<lparr>action = ''updateBadge'', badgeText = ''1'', color = ''#f44336''\<rparr>,
            \<lparr>action = ''updateBadge'', badgeText = '''', color = ''#4CAF50''\<rparr>]
   \<and> filteredUsernames (handleMessage (showCountMessage True) bobReported) = {''bob''}
   \<and> blockedCount (handleMessage (showCountMessage True) bobReported) = 1
   \<and> pendingMutations (handleMessage (showCountMessage True) bobReported) = [2]
   \<and> processedElements (handleMessage (showCountMessage True) bobReported) = {5}
   \<and> dataFiltered (handleMessage (showCountMessage True) bobReported) 2 = Some ''true''
   \<and> dataFilteredProcessed (handleMessage (showCountMessage True) bobReported) 2 = Some ''true''"
proof -
  note on1 = handleMessage_updateShowCount
    [OF showCountMessage_props, of True bobReported, THEN conjunct1]
  note on = handleMessage_updateShowCount
    [OF showCountMessage_props, of True bobReported, THEN conjunct2]
  note off = handleMessage_updateShowCount
    [OF showCountMessage_props, of False "handleMessage (showCountMessage True) bobReported",
     THEN conjunct2]
  from on have 1: "sent (handleMessage (showCountMessage True) bobReported)
       = sent bobReported @ [\<lparr>action = ''updateBadge'', badgeText = ''1'', color = ''#f44336''\<rparr>]"
    by (simp add: bobReported_fields toString_one)
  from on have 2: "showBlockedCount (handleMessage (showCountMessage True) bobReported)"
    "filteredUsernames (handleMessage (showCountMessage True) bobReported) = {''bob''}"
    "blockedCount (handleMessage (showCountMessage True) bobReported) = 1"
    "pendingMutations (handleMessage (showCountMessage True) bobReported) = [2]"
    "processedElements (handleMessage (showCountMessage True) bobReported) = {5}"
    "dataFiltered (handleMessage (showCountMessage True) bobReported) 2 = Some ''true''"
    "dataFilteredProcessed (handleMessage (showCountMessage True) bobReported) 2 = Some ''true''"
    by (simp_all add: bobReported_fields)
  have r: "runtimeId (handleMessage (showCountMessage True) bobReported)"
    by (simp add: on1 bobReported_fields updateBadge_def sendMessageSafely_def)
  from off have 3: "sent (handleMessage (showCountMessage False)
             (handleMessage (showCountMessage True) bobReported))
       = sent bobReported
         @ [\<lparr>action = ''updateBadge'', badgeText = ''1'', color = ''#f44336''\<rparr>,
            \<lparr>action = ''updateBadge'', badgeText = '''', color = ''#4CAF50''\<rparr>]"
    by (simp add: r 1)
  from 1 2 3 show ?thesis
    by (simp add: showCountMessage_props bobReported_fields)
qed

section \<open>The filter decision\<close>

text \<open>
  C3. \<open>filterElement\<close> is idempotent; the count moves by one exactly when the marker of the
  card appears or disappears; and on a card whose marker already agrees with the
  membership of its username nothing changes.
\<close>

theorem filterElement_idempotent:
  "filterElement (link, parent) (filterElement (link, parent) s) = filterElement (link, parent) s
   \<and> blockedCount (filterElement (link, parent) s) =
       blockedCount s
       + (if dataFiltered s (ident parent) = None
             \<and> dataFiltered (filterElement (link, parent) s) (ident parent) \<noteq> None then 1
          else if dataFiltered s (ident parent) \<noteq> None
             \<and> dataFiltered (filterElement (link, parent) s) (ident parent) = None then - 1
          else 0)
   \<and> (\<forall>w. querySelector link ellipsisWrapperSelector = Some w
          \<and> (dataFiltered s (ident parent) \<noteq> None)
              = (trim (textContent w) \<in> filteredUsernames s)
        \<longrightarrow> filterElement (link, parent) s = s)"
  by (auto simp: filterElement_def Let_def split: option.splits)


lemma bobLink_wrapper:
  "querySelector bobLink ellipsisWrapperSelector = Some (nameSpan 6 '' bob '')"
  by code_simp

lemma hiddenBob_agrees:
  "(dataFiltered hiddenBob (ident bobCard) \<noteq> None)
     = (trim (textContent (nameSpan 6 '' bob '')) \<in> filteredUsernames hiddenBob)"
  by code_simp

lemma hiddenBob_count: "blockedCount hiddenBob = 1"
  by code_simp

theorem filterElement_idempotent_witness:
  "querySelector bobLink ellipsisWrapperSelector = Some (nameSpan 6 '' bob '')
   \<and> (dataFiltered hiddenBob (ident bobCard) \<noteq> None)
       = (trim (textContent (nameSpan 6 '' bob '')) \<in> filteredUsernames hiddenBob)
   \<and> filterElement (bobLink, bobCard) hiddenBob = hiddenBob
   \<and> blockedCount hiddenBob = 1"
  using filterElement_idempotent [of bobLink bobCard hiddenBob, THEN conjunct2, THEN conjunct2,
          rule_format, of "nameSpan 6 '' bob ''"]
    bobLink_wrapper hiddenBob_agrees hiddenBob_count
  by blast

text \<open>
  C1, as stated, fails on a card whose username element is blank: its trimmed text is the
  empty string, the empty string is in the username set, and \<open>filterElement\<close> returns
  before it decides, so the card is not marked.
\<close>

theorem filterElement_blank_counterexample:
  "querySelector blankLink ellipsisWrapperSelector = Some (nameSpan 6 '' '')
   \<and> trim (textContent (nameSpan 6 '' '')) \<in> filteredUsernames (filtering [''''] blankPage)
   \<and> dataFiltered (filterElement (blankLink, blankCard) (filtering [''''] blankPage))
        (ident blankCard) = None"
  by code_simp

text \<open>
  C1, amended. When the username element of the link exists and its trimmed text \<open>u\<close> is
  not empty, then after \<open>filterElement\<close> the card carries \<^verbatim>\<open>data-filtered\<close> if and only if
  \<open>u\<close> is in the username set.
\<close>

theorem filterElement_hidden_iff_member:
  assumes "querySelector link ellipsisWrapperSelector = Some w"
    and "trim (textContent w) = u"
    and "u \<noteq> []"
  shows "(dataFiltered (filterElement (link, parent) s) (ident parent) \<noteq> None)
           = (u \<in> filteredUsernames s)"
  using assms by (auto simp: filterElement_def Let_def)

lemma bob_trimmed: "trim (textContent (nameSpan 6 '' bob '')) = ''bob''"
  by code_simp

lemma hiddenBob_marked: "dataFiltered hiddenBob (ident bobCard) = Some ''true''"
  by code_simp

theorem filterElement_hidden_iff_member_witness:
  "querySelector bobLink ellipsisWrapperSelector = Some (nameSpan 6 '' bob '')
   \<and> trim (textContent (nameSpan 6 '' bob '')) = ''bob''
   \<and> ''bob'' \<noteq> []
   \<and> dataFiltered (filterElement (bobLink, bobCard) (filtering [''bob''] bobPage))
        (ident bobCard) \<noteq> None
   \<and> ''bob'' \<in> filteredUsernames (filtering [''bob''] bobPage)
   \<and> dataFiltered (filterElement (bobLink, bobCard) (filtering [''alice''] bobPage))
        (ident bobCard) = None"
  using filterElement_hidden_iff_member [OF bobLink_wrapper bob_trimmed, of bobCard
          "filtering [''bob''] bobPage"]
    filterElement_hidden_iff_member [OF bobLink_wrapper bob_trimmed, of bobCard
          "filtering [''alice''] bobPage"]
    bobLink_wrapper bob_trimmed
  by (simp add: filtering_fields)

section \<open>The parent chain\<close>

lemma preorder_unfold: "preorder n = n # descendants n"
  by (cases n) (simp add: descendants_def)

lemma idents_unfold: "idents n = ident n # concat (map idents (children n))"
  by (cases n) (simp add: idents_def [abs_def] map_concat comp_def)

lemma preorder_sub: "m \<in> set (preorder t) \<Longrightarrow> set (preorder m) \<subseteq> set (preorder t)"
proof (induction t)
  case (Element i l c h x ch)
  from Element.prems have "m = Element i l c h x ch \<or> (\<exists>k \<in> set ch. m \<in> set (preorder k))"
    by auto
  then show ?case
  proof
    assume "m = Element i l c h x ch"
    then show ?thesis by simp
  next
    assume "\<exists>k \<in> set ch. m \<in> set (preorder k)"
    then obtain k where k: "k \<in> set ch" "m \<in> set (preorder k)" by blast
    then have "set (preorder m) \<subseteq> set (preorder k)" by (rule Element.IH)
    with k(1) show ?thesis by auto
  qed
qed

lemma descendants_sub:
  "m \<in> set (preorder t) \<Longrightarrow> set (descendants m) \<subseteq> set (preorder t)"
  using preorder_sub [of m t] by (auto simp: preorder_unfold [of m])

lemma descendants_child: "k \<in> set (children t) \<Longrightarrow> set (preorder k) \<subseteq> set (descendants t)"
  by (auto simp: descendants_def)

lemma descendants_trans:
  assumes "m \<in> set (descendants t)"
  shows "set (descendants m) \<subseteq> set (descendants t)"
proof -
  from assms obtain k where k: "k \<in> set (children t)" "m \<in> set (preorder k)"
    by (auto simp: descendants_def)
  from descendants_sub [OF k(2)] descendants_child [OF k(1)] show ?thesis by blast
qed

lemma distinct_child:
  assumes "distinct (idents t)" and "k \<in> set (children t)"
  shows "distinct (idents k)"
  using assms by (auto simp: idents_unfold [of t] distinct_concat_iff)

lemma no_ancestors_outside:
  assumes "i \<notin> set (idents t)"
  shows "filter (\<lambda>n. i \<in> ident ` set (descendants n)) (preorder t) = []"
proof -
  have "i \<notin> ident ` set (descendants n)" if "n \<in> set (preorder t)" for n
    using descendants_sub [OF that] assms by (auto simp: idents_def)
  then show ?thesis by (simp add: filter_empty_conv)
qed

lemma no_ancestors_outside_list:
  assumes "\<forall>k \<in> set ks. i \<notin> set (idents k)"
  shows "filter (\<lambda>n. i \<in> ident ` set (descendants n)) (concat (map preorder ks)) = []"
  using assms by (induction ks) (simp_all add: no_ancestors_outside)

lemma ancestors_root:
  assumes "distinct (idents t)"
  shows "ancestors t (ident t) = []"
proof -
  from assms have out: "ident t \<notin> set (map ident (descendants t))"
    by (simp add: idents_def preorder_unfold [of t])
  have "ident t \<notin> set (map ident (descendants n))" if "n \<in> set (preorder t)" for n
  proof (cases "n = t")
    case True
    with out show ?thesis by simp
  next
    case False
    with that have "n \<in> set (descendants t)" by (simp add: preorder_unfold [of t])
    from descendants_trans [OF this] out show ?thesis by auto
  qed
  then show ?thesis by (simp add: ancestors_def filter_empty_conv)
qed

lemma ancestors_via_child:
  assumes "distinct (idents t)" and "k \<in> set (children t)" and "i \<in> set (idents k)"
  shows "ancestors t i = ancestors k i @ [t]"
proof -
  let ?A = "\<lambda>n. i \<in> ident ` set (descendants n)"
  from assms(2) obtain xs ys where ch: "children t = xs @ k # ys"
    by (auto dest: split_list)
  from assms(1) have "distinct (concat (map idents (xs @ k # ys)))"
    by (simp add: idents_unfold [of t] ch)
  with assms(3) have xs: "\<forall>k' \<in> set xs. i \<notin> set (idents k')"
    and ys: "\<forall>k' \<in> set ys. i \<notin> set (idents k')"
    by auto
  have dt: "descendants t = concat (map preorder (xs @ k # ys))"
    by (simp add: descendants_def ch)
  have t: "?A t"
    using assms(2,3) descendants_child [of k t] by (auto simp: idents_def)
  have "filter ?A (descendants t) = filter ?A (preorder k)"
    unfolding dt
    by (simp add: no_ancestors_outside_list [OF xs] no_ancestors_outside_list [OF ys])
  with t show ?thesis
    by (simp add: ancestors_def preorder_unfold [of t])
qed

text \<open>
  In a document whose elements are distinct objects, \<open>ancestors\<close> is the chain of
  \<^verbatim>\<open>parentElement\<close>: the chain of a child is its parent followed by the chain of the
  parent, and the root has none.
\<close>

lemma ancestors_child:
  "distinct (idents t) \<Longrightarrow> n \<in> set (preorder t) \<Longrightarrow> c \<in> set (children n) \<Longrightarrow>
   ancestors t (ident c) = n # ancestors t (ident n)"
proof (induction t)
  case (Element i l cl h x ch)
  let ?t = "Element i l cl h x ch"
  from Element.prems(2) have "n = ?t \<or> (\<exists>k \<in> set ch. n \<in> set (preorder k))"
    by auto
  then show ?case
  proof
    assume n: "n = ?t"
    with Element.prems(3) have c: "c \<in> set (children ?t)" by simp
    from distinct_child [OF Element.prems(1) c] have "ancestors c (ident c) = []"
      by (rule ancestors_root)
    moreover have "ident c \<in> set (idents c)" by (simp add: idents_unfold [of c])
    ultimately have "ancestors ?t (ident c) = [?t]"
      using ancestors_via_child [OF Element.prems(1) c] by simp
    with n ancestors_root [OF Element.prems(1)] show ?thesis by simp
  next
    assume "\<exists>k \<in> set ch. n \<in> set (preorder k)"
    then obtain k where k: "k \<in> set ch" "n \<in> set (preorder k)" by blast
    then have kc: "k \<in> set (children ?t)" by simp
    from distinct_child [OF Element.prems(1) kc] have dk: "distinct (idents k)" by simp
    have IH: "ancestors k (ident c) = n # ancestors k (ident n)"
      using k dk Element.prems(3) by (intro Element.IH)
    have "c \<in> set (descendants n)"
      using Element.prems(3) descendants_child [of c n] by (auto simp: preorder_unfold [of c])
    with descendants_sub [OF k(2)] have ci: "ident c \<in> set (idents k)"
      by (auto simp: idents_def)
    from k(2) have ni: "ident n \<in> set (idents k)" by (auto simp: idents_def)
    show ?thesis
      using IH ancestors_via_child [OF Element.prems(1) kc ci]
        ancestors_via_child [OF Element.prems(1) kc ni]
      by simp
  qed
qed

section \<open>Container resolution\<close>

lemma querySelector_None: "(querySelector n sel = None) = (\<forall>d \<in> set (descendants n). \<not> sel d)"
  by (auto simp: querySelector_def find_None_iff)

lemma contains_querySelector:
  "containsListingLink n = (querySelector n listingLinkSelector \<noteq> None)"
  "containsImage n = (querySelector n imgSelector \<noteq> None)"
  "containsSurfaceMarker n = (querySelector n surfaceSelector \<noteq> None)"
  by (simp_all add: querySelector_None containsListingLink_def containsImage_def
        containsSurfaceMarker_def)

lemma hasCardMarker_className:
  "hasCardMarker n = (className n \<noteq> [] \<and> includesStr (className n) ''fabkit-'')"
  by (cases "className n") (simp_all add: hasCardMarker_def)

lemma strategy1_find: "strategy1 chain maxDepth = find qualifies (take maxDepth chain)"
proof (induction chain arbitrary: maxDepth)
  case Nil
  show ?case by simp
next
  case (Cons current up)
  show ?case
  proof (cases maxDepth)
    case 0
    then show ?thesis by simp
  next
    case (Suc k)
    show ?thesis
      using Suc Cons.IH [of k]
      by (simp add: Let_def qualifies_def contains_querySelector hasCardMarker_className)
  qed
qed

lemma stackWalk_last:
  "stackWalk productContainer chain = last (productContainer # takeWhile isStackContainer chain)"
  by (induction chain arbitrary: productContainer) (simp_all add: isStackContainer_def)

lemma closest_of_link:
  "localName n \<noteq> ''div'' \<Longrightarrow>
   closest doc n stackSelector = find stackSelector (ancestors doc (ident n))"
  by (simp add: closest_def stackSelector_def)

lemma findItemContainer_spec:
  assumes "sellerLinkSelector sellerLink"
  shows "findItemContainer doc sellerLink = findItemContainerSpec doc sellerLink"
proof -
  from assms have "localName sellerLink \<noteq> ''div''"
    by (simp add: sellerLinkSelector_def)
  then show ?thesis
    unfolding findItemContainer_def findItemContainerSpec_def
    by (simp add: strategy1_find closest_of_link stackWalk_last contains_querySelector Let_def
          del: last.simps takeWhile.simps cong: option.case_cong)
qed

text \<open>
  C4. On a seller-profile link, \<open>findItemContainer\<close> computes what the specification
  describes: the first of the nearest ten ancestors that holds a listing link and an image
  and either has a \<^verbatim>\<open>fabkit-\<close> class itself or holds a surface element; failing that, from
  the nearest \<^verbatim>\<open>fabkit-Stack\<close> ancestor the outermost container reached through parents of
  class \<^verbatim>\<open>fabkit-Stack-root\<close>, if it holds a listing link and an image; otherwise nothing.
\<close>

theorem findItemContainer_as_specified:
  assumes "sellerLinkSelector sellerLink"
  shows "findItemContainer doc sellerLink = findItemContainerSpec doc sellerLink"
  using assms by (rule findItemContainer_spec)

lemma bobLink_ancestors: "map ident (ancestors bobPage (ident bobLink)) = [2, 1, 0]"
  by code_simp

lemma bobLink_is_seller: "sellerLinkSelector bobLink"
  by code_simp

lemma bobLink_card: "findItemContainerSpec bobPage bobLink = Some bobCard"
  by code_simp

theorem findItemContainer_as_specified_witness:
  "sellerLinkSelector bobLink \<and> findItemContainer bobPage bobLink = Some bobCard"
  using findItemContainer_as_specified [OF bobLink_is_seller, of bobPage] bobLink_is_seller
    bobLink_card
  by simp


section \<open>The link loop\<close>


lemma findLoop_seen:
  "ident link \<in> processedElements s \<Longrightarrow> findLoop (link # links) s = findLoop links s"
  by simp

lemma findLoop_none:
  "ident link \<notin> processedElements s \<Longrightarrow> findItemContainer (document s) link = None \<Longrightarrow>
   findLoop (link # links) s = findLoop links (noteResolved link s)"
  by (simp add: noteResolved_def)

lemma findLoop_old:
  "ident link \<notin> processedElements s \<Longrightarrow> findItemContainer (document s) link = Some parent \<Longrightarrow>
   dataFilteredProcessed s (ident parent) \<noteq> None \<Longrightarrow>
   findLoop (link # links) s = findLoop links (noteResolved link s)"
  by (auto simp add: noteResolved_def Let_def)

lemma findLoop_new:
  "ident link \<notin> processedElements s \<Longrightarrow> findItemContainer (document s) link = Some parent \<Longrightarrow>
   dataFilteredProcessed s (ident parent) = None \<Longrightarrow>
   findLoop (link # links) s =
     ((link, parent) # fst (findLoop links (markSeen link parent s)),
      snd (findLoop links (markSeen link parent s)))"
  by (simp add: markSeen_def Let_def)

lemma findLoop_induct [case_names Nil Seen NoContainer OldContainer NewContainer]:
  assumes "\<And>s. P [] s"
    and "\<And>link links s. ident link \<in> processedElements s \<Longrightarrow> P links s \<Longrightarrow> P (link # links) s"
    and "\<And>link links s. ident link \<notin> processedElements s \<Longrightarrow>
           findItemContainer (document s) link = None \<Longrightarrow>
           P links (noteResolved link s) \<Longrightarrow> P (link # links) s"
    and "\<And>link links s parent. ident link \<notin> processedElements s \<Longrightarrow>
           findItemContainer (document s) link = Some parent \<Longrightarrow>
           dataFilteredProcessed s (ident parent) \<noteq> None \<Longrightarrow>
           P links (noteResolved link s) \<Longrightarrow> P (link # links) s"
    and "\<And>link links s parent. ident link \<notin> processedElements s \<Longrightarrow>
           findItemContainer (document s) link = Some parent \<Longrightarrow>
           dataFilteredProcessed s (ident parent) = None \<Longrightarrow>
           P links (markSeen link parent s) \<Longrightarrow> P (link # links) s"
  shows "P links s"
proof (induction links arbitrary: s)
  case Nil
  show ?case by (rule assms(1))
next
  case (Cons link links)
  show ?case
  proof (cases "ident link \<in> processedElements s")
    case True
    then show ?thesis by (rule assms(2)) (rule Cons.IH)
  next
    case notseen: False
    show ?thesis
    proof (cases "findItemContainer (document s) link")
      case None
      with notseen show ?thesis by (rule assms(3)) (rule Cons.IH)
    next
      case (Some parent)
      show ?thesis
      proof (cases "dataFilteredProcessed s (ident parent) = None")
        case True
        with notseen Some show ?thesis by (rule assms(5)) (rule Cons.IH)
      next
        case False
        with notseen Some show ?thesis by (rule assms(4)) (rule Cons.IH)
      qed
    qed
  qed
qed

declare findLoop.simps(2) [simp del]

lemma noteResolved_fields [simp]:
  "document (noteResolved l s) = document s"
  "processedElements (noteResolved l s) = processedElements s"
  "dataFilteredProcessed (noteResolved l s) = dataFilteredProcessed s"
  "dataFiltered (noteResolved l s) = dataFiltered s"
  "resolved (noteResolved l s) = resolved s @ [ident l]"
  by (simp_all add: noteResolved_def)

lemma markSeen_fields [simp]:
  "document (markSeen l p s) = document s"
  "processedElements (markSeen l p s) = insert (ident l) (processedElements s)"
  "dataFilteredProcessed (markSeen l p s) = (dataFilteredProcessed s)(ident p \<mapsto> ''true'')"
  "dataFiltered (markSeen l p s) = dataFiltered s"
  "resolved (markSeen l p s) = resolved s @ [ident l]"
  by (simp_all add: markSeen_def)

lemma findLoop_frame:
  "snd (findLoop links s) =
     s\<lparr>processedElements := processedElements (snd (findLoop links s)),
       dataFilteredProcessed := dataFilteredProcessed (snd (findLoop links s)),
       resolved := resolved (snd (findLoop links s))\<rparr>"
proof (induction links s rule: findLoop_induct)
  case (Nil s)
  show ?case by simp
next
  case (Seen link links s)
  then show ?case by (simp only: findLoop_seen)
next
  case (NoContainer link links s)
  then show ?case by (simp add: findLoop_none noteResolved_def)
next
  case (OldContainer link links s parent)
  then show ?case by (simp add: findLoop_old noteResolved_def)
next
  case (NewContainer link links s parent)
  then show ?case by (simp add: findLoop_new markSeen_def)
qed

lemma findLoop_fields [simp]:
  "document (snd (findLoop links s)) = document s"
  "dataFiltered (snd (findLoop links s)) = dataFiltered s"
  "blockedCount (snd (findLoop links s)) = blockedCount s"
  "filteredUsernames (snd (findLoop links s)) = filteredUsernames s"
  "showBlockedCount (snd (findLoop links s)) = showBlockedCount s"
  "pendingMutations (snd (findLoop links s)) = pendingMutations s"
  "mutationTimeout (snd (findLoop links s)) = mutationTimeout s"
  "resourceTimers (snd (findLoop links s)) = resourceTimers s"
  "runtimeId (snd (findLoop links s)) = runtimeId s"
  "sent (snd (findLoop links s)) = sent s"
  "console (snd (findLoop links s)) = console s"
  "clock (snd (findLoop links s)) = clock s"
  "timers (snd (findLoop links s)) = timers s"
  "timersIssued (snd (findLoop links s)) = timersIssued s"
  "frames (snd (findLoop links s)) = frames s"
  by (subst findLoop_frame, simp)+

text \<open>What the loop yields and how it leaves the seen markers.\<close>

lemma findLoop_yield:
  "(l, p) \<in> set (fst (findLoop links s)) \<Longrightarrow>
     l \<in> set links \<and> findItemContainer (document s) l = Some p
     \<and> dataFilteredProcessed s (ident p) = None \<and> ident l \<notin> processedElements s"
proof (induction links s rule: findLoop_induct)
  case (Nil s)
  then show ?case by simp
next
  case (Seen link links s)
  then show ?case by (auto simp: findLoop_seen)
next
  case (NoContainer link links s)
  then show ?case by (auto simp: findLoop_none)
next
  case (OldContainer link links s parent)
  then show ?case by (auto simp: findLoop_old)
next
  case (NewContainer link links s parent)
  then show ?case by (auto simp: findLoop_new split: if_splits)
qed

lemma findLoop_seen_after:
  "dataFilteredProcessed (snd (findLoop links s)) i =
     (if i \<in> (\<lambda>e. ident (snd e)) ` set (fst (findLoop links s)) then Some ''true''
      else dataFilteredProcessed s i)"
proof (induction links s rule: findLoop_induct)
  case (Nil s)
  then show ?case by simp
next
  case (Seen link links s)
  then show ?case by (simp add: findLoop_seen)
next
  case (NoContainer link links s)
  then show ?case by (auto simp: findLoop_none)
next
  case (OldContainer link links s parent)
  then show ?case by (auto simp: findLoop_old)
next
  case (NewContainer link links s parent)
  then show ?case by (auto simp: findLoop_new)
qed

lemma findLoop_distinct: "distinct (map (\<lambda>e. ident (snd e)) (fst (findLoop links s)))"
proof (induction links s rule: findLoop_induct)
  case (Nil s)
  then show ?case by simp
next
  case (Seen link links s)
  then show ?case by (simp add: findLoop_seen)
next
  case (NoContainer link links s)
  then show ?case by (simp add: findLoop_none)
next
  case (OldContainer link links s parent)
  then show ?case by (simp add: findLoop_old)
next
  case (NewContainer link links s parent)
  have "ident parent \<noteq> ident (snd e)" if "e \<in> set (fst (findLoop links (markSeen link parent s)))" for e
  proof -
    from that have "(fst e, snd e) \<in> set (fst (findLoop links (markSeen link parent s)))" by simp
    from findLoop_yield [OF this]
    have "dataFilteredProcessed (markSeen link parent s) (ident (snd e)) = None" by simp
    then show ?thesis by (auto split: if_splits)
  qed
  with NewContainer show ?case by (auto simp: findLoop_new)
qed

lemma findLoop_processed:
  "processedElements (snd (findLoop links s)) =
     processedElements s \<union> (\<lambda>e. ident (fst e)) ` set (fst (findLoop links s))"
proof (induction links s rule: findLoop_induct)
  case (Nil s)
  then show ?case by simp
next
  case (Seen link links s)
  then show ?case by (simp add: findLoop_seen)
next
  case (NoContainer link links s)
  then show ?case by (simp add: findLoop_none)
next
  case (OldContainer link links s parent)
  then show ?case by (simp add: findLoop_old)
next
  case (NewContainer link links s parent)
  then show ?case by (auto simp: findLoop_new)
qed

lemma findLoop_resolved:
  "l \<in> processedElements s \<Longrightarrow>
     count_list (resolved (snd (findLoop links s))) l = count_list (resolved s) l"
proof (induction links s rule: findLoop_induct)
  case (Nil s)
  then show ?case by simp
next
  case (Seen link links s)
  then show ?case by (simp add: findLoop_seen)
next
  case (NoContainer link links s)
  then show ?case by (auto simp: findLoop_none)
next
  case (OldContainer link links s parent)
  then show ?case by (auto simp: findLoop_old)
next
  case (NewContainer link links s parent)
  then show ?case by (auto simp: findLoop_new)
qed


section \<open>Resolved containers are elements of the document\<close>

lemma find_Some_in: "find P xs = Some x \<Longrightarrow> x \<in> set xs \<and> P x"
  by (induction xs) (auto split: if_splits)

lemma ancestors_in_doc: "n \<in> set (ancestors doc i) \<Longrightarrow> ident n \<in> set (idents doc)"
  by (auto simp: ancestors_def idents_def)

lemma last_takeWhile_in: "last (x # takeWhile P xs) \<in> insert x (set xs)"
proof (cases "takeWhile P xs = []")
  case True
  then show ?thesis by simp
next
  case False
  then have "last (takeWhile P xs) \<in> set (takeWhile P xs)" by (rule last_in_set)
  then have "last (takeWhile P xs) \<in> set xs" by (rule set_takeWhileD [THEN conjunct1])
  with False show ?thesis by simp
qed

lemma findItemContainer_in_doc:
  assumes "sellerLinkSelector l" and "findItemContainer doc l = Some p"
  shows "ident p \<in> set (idents doc)"
proof -
  from assms have spec: "findItemContainerSpec doc l = Some p"
    by (simp add: findItemContainer_spec)
  show ?thesis
  proof (cases "find qualifies (take 10 (ancestors doc (ident l)))")
    case (Some c)
    with spec have "c = p" by (simp add: findItemContainerSpec_def)
    with Some have "p \<in> set (take 10 (ancestors doc (ident l)))" by (auto dest: find_Some_in)
    then have "p \<in> set (ancestors doc (ident l))" by (rule in_set_takeD)
    then show ?thesis by (rule ancestors_in_doc)
  next
    case None
    with spec obtain nearest where n: "find stackSelector (ancestors doc (ident l)) = Some nearest"
      and p: "p = last (nearest # takeWhile isStackContainer (ancestors doc (ident nearest)))"
      by (auto simp: findItemContainerSpec_def Let_def split: option.splits if_splits)
    from n have "nearest \<in> set (ancestors doc (ident l))" by (auto dest: find_Some_in)
    then have 1: "ident nearest \<in> set (idents doc)" by (rule ancestors_in_doc)
    from p have "p \<in> insert nearest (set (ancestors doc (ident nearest)))"
      using last_takeWhile_in by metis
    with 1 show ?thesis by (auto dest: ancestors_in_doc)
  qed
qed



section \<open>The count and the markers\<close>



lemma filterElement_cases:
  "filterElement (l, p) s = s
   \<or> (dataFiltered s (ident p) = None
       \<and> filterElement (l, p) s =
           s\<lparr>dataFiltered := (dataFiltered s)(ident p \<mapsto> ''true''),
             blockedCount := blockedCount s + 1\<rparr>)
   \<or> (dataFiltered s (ident p) \<noteq> None
       \<and> filterElement (l, p) s =
           s\<lparr>dataFiltered := (dataFiltered s)(ident p := None),
             blockedCount := blockedCount s - 1\<rparr>)"
  by (simp add: filterElement_def Let_def split: option.splits)

lemma filterElement_fields [simp]:
  "document (filterElement e s) = document s"
  "dataFilteredProcessed (filterElement e s) = dataFilteredProcessed s"
  "processedElements (filterElement e s) = processedElements s"
  "resolved (filterElement e s) = resolved s"
  "filteredUsernames (filterElement e s) = filteredUsernames s"
  "showBlockedCount (filterElement e s) = showBlockedCount s"
  "pendingMutations (filterElement e s) = pendingMutations s"
  "mutationTimeout (filterElement e s) = mutationTimeout s"
  "runtimeId (filterElement e s) = runtimeId s"
  "sent (filterElement e s) = sent s"
  "console (filterElement e s) = console s"
  "clock (filterElement e s) = clock s"
  "timers (filterElement e s) = timers s"
  "timersIssued (filterElement e s) = timersIssued s"
  "frames (filterElement e s) = frames s"
  "resourceTimers (filterElement e s) = resourceTimers s"
  by (simp_all add: filterElement_def Let_def split: prod.splits option.splits)






section \<open>A scan keeps the invariants\<close>

lemma updateBadge_fields [simp]:
  "document (updateBadge s) = document s"
  "dataFiltered (updateBadge s) = dataFiltered s"
  "dataFilteredProcessed (updateBadge s) = dataFilteredProcessed s"
  "blockedCount (updateBadge s) = blockedCount s"
  "processedElements (updateBadge s) = processedElements s"
  "resolved (updateBadge s) = resolved s"
  "filteredUsernames (updateBadge s) = filteredUsernames s"
  "showBlockedCount (updateBadge s) = showBlockedCount s"
  "pendingMutations (updateBadge s) = pendingMutations s"
  "mutationTimeout (updateBadge s) = mutationTimeout s"
  "runtimeId (updateBadge s) = runtimeId s"
  "console (updateBadge s) = console s"
  "clock (updateBadge s) = clock s"
  "timers (updateBadge s) = timers s"
  "timersIssued (updateBadge s) = timersIssued s"
  "frames (updateBadge s) = frames s"
  "resourceTimers (updateBadge s) = resourceTimers s"
  by (simp_all add: updateBadge_def sendMessageSafely_def)



lemma fold_filterElement_document [simp]:
  "document (fold filterElement els s) = document s"
  by (induction els arbitrary: s) simp_all





section \<open>The reset\<close>

lemma resetAndRefilter_clear: "resetAndRefilter s = filterExistingContent (clearMarkers s)"
  by (simp add: resetAndRefilter_def clearMarkers_def Let_def)

lemma filterExistingContent_scan: "filterExistingContent s = updateBadge (scan TheDocument s)"
  by (simp add: filterExistingContent_def scan_def Let_def)

lemma processNode_scan:
  "processNode i s = (case getElement (document s) i of None \<Rightarrow> s | Some n \<Rightarrow> scan (AnElement n) s)"
  by (simp add: processNode_def scan_def Let_def split: option.splits)

lemma fold_removeMarkers:
  "dataFiltered (fold removeMarkers ns s) i
     = (if i \<in> ident ` set ns then None else dataFiltered s i)"
  "dataFilteredProcessed (fold removeMarkers ns s) i
     = (if i \<in> ident ` set ns then None else dataFilteredProcessed s i)"
  "document (fold removeMarkers ns s) = document s"
  "blockedCount (fold removeMarkers ns s) = blockedCount s"
  "processedElements (fold removeMarkers ns s) = processedElements s"
  "resolved (fold removeMarkers ns s) = resolved s"
  "filteredUsernames (fold removeMarkers ns s) = filteredUsernames s"
  by (induction ns arbitrary: s) (auto simp: removeMarkers_def)

lemma clearMarkers_fields [simp]:
  "document (clearMarkers s) = document s"
  "blockedCount (clearMarkers s) = 0"
  "processedElements (clearMarkers s) = {}"
  "resolved (clearMarkers s) = resolved s"
  "filteredUsernames (clearMarkers s) = filteredUsernames s"
  by (simp_all add: clearMarkers_def Let_def fold_removeMarkers)

lemma clearMarkers_filtered:
  "dataFiltered (clearMarkers s) i =
     (if i \<in> set (idents (document s))
           \<and> (dataFilteredProcessed s i = Some ''true'' \<or> dataFiltered s i = Some ''true'')
      then None else dataFiltered s i)"
  by (auto simp: clearMarkers_def Let_def fold_removeMarkers idents_def)

lemma clearMarkers_processed:
  "dataFilteredProcessed (clearMarkers s) i =
     (if i \<in> set (idents (document s))
           \<and> (dataFilteredProcessed s i = Some ''true'' \<or> dataFiltered s i = Some ''true'')
      then None else dataFilteredProcessed s i)"
  by (auto simp: clearMarkers_def Let_def fold_removeMarkers idents_def)



section \<open>What the watcher and the timers leave alone\<close>

lemma addPending_fields [simp]:
  "document (addPending i s) = document s"
  "dataFiltered (addPending i s) = dataFiltered s"
  "dataFilteredProcessed (addPending i s) = dataFilteredProcessed s"
  "blockedCount (addPending i s) = blockedCount s"
  "processedElements (addPending i s) = processedElements s"
  "resolved (addPending i s) = resolved s"
  "filteredUsernames (addPending i s) = filteredUsernames s"
  "showBlockedCount (addPending i s) = showBlockedCount s"
  "runtimeId (addPending i s) = runtimeId s"
  "sent (addPending i s) = sent s"
  "console (addPending i s) = console s"
  "clock (addPending i s) = clock s"
  "timers (addPending i s) = timers s"
  "timersIssued (addPending i s) = timersIssued s"
  "frames (addPending i s) = frames s"
  "mutationTimeout (addPending i s) = mutationTimeout s"
  "resourceTimers (addPending i s) = resourceTimers s"
  by (simp_all add: addPending_def)

lemma batchMutation_frame:
  "batchMutation m s = s\<lparr>pendingMutations := pendingMutations (batchMutation m s)\<rparr>"
proof -
  have "fold (\<lambda>node s. case node of ElementNode i \<Rightarrow> addPending i s | OtherNode \<Rightarrow> s) ns s
      = s\<lparr>pendingMutations := pendingMutations
           (fold (\<lambda>node s. case node of ElementNode i \<Rightarrow> addPending i s | OtherNode \<Rightarrow> s) ns s)\<rparr>"
    for ns
  proof (induction ns arbitrary: s)
    case Nil
    show ?case by simp
  next
    case (Cons n ns)
    show ?case
    proof (cases n)
      case (ElementNode i)
      show ?thesis
        using Cons.IH [of "addPending i s"] ElementNode
        by (cases "i \<in> set (pendingMutations s)") (simp_all add: addPending_def)
    next
      case OtherNode
      then show ?thesis using Cons.IH [of s] by simp
    qed
  qed
  then show ?thesis by (simp add: batchMutation_def)
qed

lemma fold_batchMutation_frame:
  "fold batchMutation ms s = s\<lparr>pendingMutations := pendingMutations (fold batchMutation ms s)\<rparr>"
proof (induction ms arbitrary: s)
  case Nil
  show ?case by simp
next
  case (Cons m ms)
  have "fold batchMutation (m # ms) s = fold batchMutation ms (batchMutation m s)" by simp
  also have "\<dots> = (batchMutation m s)\<lparr>pendingMutations :=
       pendingMutations (fold batchMutation ms (batchMutation m s))\<rparr>"
    by (rule Cons.IH)
  also have "\<dots> = s\<lparr>pendingMutations :=
       pendingMutations (fold batchMutation ms (batchMutation m s))\<rparr>"
    by (subst batchMutation_frame) simp
  finally show ?case by simp
qed

lemma fold_batchMutation_fields [simp]:
  "document (fold batchMutation ms s) = document s"
  "dataFiltered (fold batchMutation ms s) = dataFiltered s"
  "dataFilteredProcessed (fold batchMutation ms s) = dataFilteredProcessed s"
  "blockedCount (fold batchMutation ms s) = blockedCount s"
  "processedElements (fold batchMutation ms s) = processedElements s"
  "resolved (fold batchMutation ms s) = resolved s"
  "filteredUsernames (fold batchMutation ms s) = filteredUsernames s"
  "showBlockedCount (fold batchMutation ms s) = showBlockedCount s"
  "runtimeId (fold batchMutation ms s) = runtimeId s"
  "sent (fold batchMutation ms s) = sent s"
  "console (fold batchMutation ms s) = console s"
  "clock (fold batchMutation ms s) = clock s"
  "timers (fold batchMutation ms s) = timers s"
  "timersIssued (fold batchMutation ms s) = timersIssued s"
  "frames (fold batchMutation ms s) = frames s"
  "mutationTimeout (fold batchMutation ms s) = mutationTimeout s"
  "resourceTimers (fold batchMutation ms s) = resourceTimers s"
  by (subst fold_batchMutation_frame, simp)+

lemma observerCallback_fields [simp]:
  "document (observerCallback ms s) = document s"
  "dataFiltered (observerCallback ms s) = dataFiltered s"
  "dataFilteredProcessed (observerCallback ms s) = dataFilteredProcessed s"
  "blockedCount (observerCallback ms s) = blockedCount s"
  "processedElements (observerCallback ms s) = processedElements s"
  "resolved (observerCallback ms s) = resolved s"
  "filteredUsernames (observerCallback ms s) = filteredUsernames s"
  "showBlockedCount (observerCallback ms s) = showBlockedCount s"
  "runtimeId (observerCallback ms s) = runtimeId s"
  "sent (observerCallback ms s) = sent s"
  "console (observerCallback ms s) = console s"
  "clock (observerCallback ms s) = clock s"
  "frames (observerCallback ms s) = frames s"
  by (simp_all add: observerCallback_def Let_def setTimeout_def clearTimeout_def
        split: option.splits)

lemma fold_processPending_frame:
  "fold (\<lambda>t. processPendingMutations) due s
     = s\<lparr>frames := frames (fold (\<lambda>t. processPendingMutations) due s)\<rparr>"
proof (induction due arbitrary: s)
  case Nil
  show ?case by simp
next
  case (Cons t due)
  show ?case
    using Cons.IH [of "processPendingMutations s"]
    by (cases "pendingMutations s = []") (simp_all add: processPendingMutations_def)
qed

lemma fold_processPending_fields [simp]:
  "document (fold (\<lambda>t. processPendingMutations) due s) = document s"
  "dataFiltered (fold (\<lambda>t. processPendingMutations) due s) = dataFiltered s"
  "dataFilteredProcessed (fold (\<lambda>t. processPendingMutations) due s) = dataFilteredProcessed s"
  "blockedCount (fold (\<lambda>t. processPendingMutations) due s) = blockedCount s"
  "processedElements (fold (\<lambda>t. processPendingMutations) due s) = processedElements s"
  "resolved (fold (\<lambda>t. processPendingMutations) due s) = resolved s"
  "filteredUsernames (fold (\<lambda>t. processPendingMutations) due s) = filteredUsernames s"
  "showBlockedCount (fold (\<lambda>t. processPendingMutations) due s) = showBlockedCount s"
  "runtimeId (fold (\<lambda>t. processPendingMutations) due s) = runtimeId s"
  "sent (fold (\<lambda>t. processPendingMutations) due s) = sent s"
  "console (fold (\<lambda>t. processPendingMutations) due s) = console s"
  "clock (fold (\<lambda>t. processPendingMutations) due s) = clock s"
  "timers (fold (\<lambda>t. processPendingMutations) due s) = timers s"
  "timersIssued (fold (\<lambda>t. processPendingMutations) due s) = timersIssued s"
  "pendingMutations (fold (\<lambda>t. processPendingMutations) due s) = pendingMutations s"
  "mutationTimeout (fold (\<lambda>t. processPendingMutations) due s) = mutationTimeout s"
  "resourceTimers (fold (\<lambda>t. processPendingMutations) due s) = resourceTimers s"
  by (subst fold_processPending_frame, simp)+

lemma elapse_fields [simp]:
  "document (elapse ms s) = document s"
  "dataFiltered (elapse ms s) = dataFiltered s"
  "dataFilteredProcessed (elapse ms s) = dataFilteredProcessed s"
  "blockedCount (elapse ms s) = blockedCount s"
  "processedElements (elapse ms s) = processedElements s"
  "resolved (elapse ms s) = resolved s"
  "filteredUsernames (elapse ms s) = filteredUsernames s"
  "showBlockedCount (elapse ms s) = showBlockedCount s"
  "runtimeId (elapse ms s) = runtimeId s"
  "sent (elapse ms s) = sent s"
  "console (elapse ms s) = console s"
  "pendingMutations (elapse ms s) = pendingMutations s"
  "mutationTimeout (elapse ms s) = mutationTimeout s"
  "clock (elapse ms s) = clock s + ms"
  by (simp_all add: elapse_def Let_def)

section \<open>Invariants of the event loop\<close>

lemma valid_True: "validate m = Inr b \<Longrightarrow> b"
  by (auto simp: validate_def split: if_splits jsval.splits)

lemma engine_step_invariant:
  assumes dep: "\<And>s s'. document s' = document s \<Longrightarrow> dataFiltered s' = dataFiltered s \<Longrightarrow>
             dataFilteredProcessed s' = dataFilteredProcessed s \<Longrightarrow>
             blockedCount s' = blockedCount s \<Longrightarrow>
             processedElements s' = processedElements s \<Longrightarrow>
             resolved s' = resolved s \<Longrightarrow> I s' = I s"
    and sc: "\<And>node s. I s \<Longrightarrow> I (scan node s)"
    and cl: "\<And>s m. I s \<Longrightarrow> e = Message m \<Longrightarrow> isFilterUpdate m \<Longrightarrow> I (clearMarkers s)"
    and I: "I s"
    and e: "\<And>d filtered processed. e \<noteq> PageChange d filtered processed"
  shows "I (step e s)"
proof -
  have badge: "I (updateBadge s)" if "I s" for s
    using that dep [of "updateBadge s" s] by simp
  have existing: "I (filterExistingContent s)" if "I s" for s
    using that by (simp add: filterExistingContent_scan badge sc)
  have node: "I (processNode i s)" if "I s" for i s
    using that by (simp add: processNode_scan sc split: option.splits)
  have nodes: "I (fold processNode is s)" if "I s" for "is" s
    using that by (induction "is" arbitrary: s) (simp_all add: node)
  have frame: "I (frameCallback s)" if "I s" for s
  proof -
    from that have "I (s\<lparr>pendingMutations := []\<rparr>)"
      using dep [of "s\<lparr>pendingMutations := []\<rparr>" s] by simp
    then show ?thesis by (simp add: frameCallback_def Let_def badge nodes)
  qed
  have framesn: "I ((frameCallback ^^ n) s)" if "I s" for n s
    using that by (induction n) (simp_all add: frame)
  show ?thesis
  proof (cases e)
    case (Mutations ms)
    then show ?thesis using I dep [of "observerCallback ms s" s] by simp
  next
    case (Elapse ms)
    then show ?thesis using I dep [of "elapse ms s" s] by simp
  next
    case AnimationFrame
    from I have "I (s\<lparr>frames := 0\<rparr>)" using dep [of "s\<lparr>frames := 0\<rparr>" s] by simp
    then show ?thesis using AnimationFrame by (simp add: animationFrame_def framesn)
  next
    case (Message m)
    show ?thesis
    proof (cases "validate m")
      case (Inl err)
      then show ?thesis
        using I Message dep [of "s\<lparr>console := console s @ [InvalidMessageReceived err]\<rparr>" s]
        by (simp add: handleMessage_def)
    next
      case (Inr b)
      from Inr have rec: "recognized m"
        using valid_True [of m b] by (simp add: recognized_iff_valid)
      have 1: "I (resetAndRefilter (s\<lparr>filteredUsernames := U\<rparr>))"
        if "getProp m ''action'' = JString ''updateFilters''" for U
      proof -
        from that rec have u: "isFilterUpdate m" by (simp add: isFilterUpdate_def)
        from I have "I (s\<lparr>filteredUsernames := U\<rparr>)"
          using dep [of "s\<lparr>filteredUsernames := U\<rparr>" s] by simp
        then have "I (clearMarkers (s\<lparr>filteredUsernames := U\<rparr>))"
          using Message u by (rule cl)
        then show ?thesis by (simp add: resetAndRefilter_clear existing)
      qed
      have 2: "I (updateBadge (s\<lparr>showBlockedCount := b\<rparr>))" for b
      proof -
        from I have "I (s\<lparr>showBlockedCount := b\<rparr>)"
          using dep [of "s\<lparr>showBlockedCount := b\<rparr>" s] by simp
        then show ?thesis by (rule badge)
      qed
      show ?thesis
        using Inr Message I 1 2 by (simp add: handleMessage_def)
    qed
  next
    case (PageChange d filtered processed)
    with e [of d filtered processed] show ?thesis by simp
  next
    case ContextInvalidated
    then show ?thesis using I dep [of "s\<lparr>runtimeId := False\<rparr>" s] by simp
  qed
qed

lemma step_document:
  "(\<And>d filtered processed. e \<noteq> PageChange d filtered processed) \<Longrightarrow>
   document (step e s) = document s"
  by (rule engine_step_invariant [where I = "\<lambda>x. document x = document s"])
     (simp_all add: scan_def findElementsInNode_def)














section \<open>Links already seen\<close>

lemma fold_filterElement_fields [simp]:
  "processedElements (fold filterElement els s) = processedElements s"
  "resolved (fold filterElement els s) = resolved s"
  by (induction els arbitrary: s) simp_all

lemma scan_settled: "settled l n s \<Longrightarrow> settled l n (scan node s)"
  by (simp add: settled_def scan_def findElementsInNode_def findLoop_processed findLoop_resolved)

lemma step_settled:
  assumes "settled l n s" and "\<And>m. e = Message m \<Longrightarrow> \<not> isFilterUpdate m"
  shows "settled l n (step e s)"
proof (cases "\<exists>d filtered processed. e = PageChange d filtered processed")
  case True
  with assms(1) show ?thesis by (auto simp: settled_def)
next
  case False
  show ?thesis
  proof (rule engine_step_invariant [where I = "settled l n"])
    show "settled l n s" by (rule assms(1))
    show "e \<noteq> PageChange d filtered processed" for d filtered processed using False by simp
    show "settled l n (clearMarkers s)" if "e = Message m" "isFilterUpdate m" for s m
      using that assms(2) by simp
  qed (simp_all add: settled_def scan_settled [unfolded settled_def])
qed

lemma run_settled: "settled l n s \<Longrightarrow> noReset es \<Longrightarrow> settled l n (run es s)"
  unfolding run_def noReset_def
proof (induction es arbitrary: s)
  case Nil
  then show ?case by simp
next
  case (Cons e es)
  from Cons.prems have "settled l n (step e s)"
    by (intro step_settled) auto
  with Cons show ?case by simp
qed

text \<open>
  C5, amended. Once a link is in the processed set, no later pass calls
  \<open>findItemContainer\<close> on it, whatever the page does and whichever events follow, as long
  as no filter-list update resets the cache; and the link stays in the set. (A link whose
  resolution yields nothing, or a container already seen, is not put in the set.)
\<close>

theorem seen_link_not_resolved_again:
  assumes "noReset es" and "link \<in> processedElements s"
  shows "count_list (resolved (run es s)) link = count_list (resolved s) link
         \<and> link \<in> processedElements (run es s)"
proof -
  from assms(2) have "settled link (count_list (resolved s) link) s"
    by (simp add: settled_def)
  then have "settled link (count_list (resolved s) link) (run es s)"
    using assms(1) by (rule run_settled)
  then show ?thesis by (simp add: settled_def)
qed

text \<open>
  C5, as stated, fails: the page adds an element and then, inside it, another one that
  holds a seller link without a card. Both are pending in the same pass; the link is
  resolved under the outer element, is not marked because nothing was found, and is
  resolved again under the inner one. No reset occurs.
\<close>

theorem link_resolved_twice_counterexample:
  "noReset nestedAdded
   \<and> count_list (resolved (run nestedAdded (initialize [] False (newFabFilter (examplePage []) True)))) 4 = 2"
  by code_simp

lemma cardReported_noReset: "noReset cardReported"
  by code_simp

lemma bob_seen: "5 \<in> processedElements (initialize [''bob''] False (newFabFilter bobPage True))"
  by code_simp

lemma bob_resolved_once:
  "count_list (resolved (initialize [''bob''] False (newFabFilter bobPage True))) 5 = 1"
  by code_simp

theorem seen_link_not_resolved_again_witness:
  "noReset cardReported
   \<and> 5 \<in> processedElements (initialize [''bob''] False (newFabFilter bobPage True))
   \<and> count_list
        (resolved (run cardReported (initialize [''bob''] False (newFabFilter bobPage True)))) 5 = 1"
  using seen_link_not_resolved_again [OF cardReported_noReset bob_seen]
    cardReported_noReset bob_seen bob_resolved_once
  by simp


section \<open>The filter-list update\<close>

lemma findLoop_first:
  "distinct (map ident links) \<Longrightarrow> ident ` set links \<inter> processedElements s = {} \<Longrightarrow>
   (l, p) \<in> set (fst (findLoop links s)) \<Longrightarrow>
   find (resolvesTo (document s) (ident p)) links = Some l"
proof (induction links s rule: findLoop_induct)
  case (Nil s)
  then show ?case by simp
next
  case (Seen link links s)
  then show ?case by auto
next
  case (NoContainer link links s)
  then show ?case by (auto simp: findLoop_none resolvesTo_def)
next
  case (OldContainer link links s parent)
  from OldContainer.prems(3) have y: "(l, p) \<in> set (fst (findLoop links (noteResolved link s)))"
    using OldContainer.hyps by (simp add: findLoop_old)
  from findLoop_yield [OF y] have "dataFilteredProcessed s (ident p) = None" by simp
  with OldContainer.hyps have "ident parent \<noteq> ident p" by auto
  then have "\<not> resolvesTo (document s) (ident p) link"
    using OldContainer.hyps by (simp add: resolvesTo_def)
  moreover have "find (resolvesTo (document s) (ident p)) links = Some l"
    using OldContainer.IH OldContainer.prems y by auto
  ultimately show ?case by simp
next
  case (NewContainer link links s parent)
  from NewContainer.prems(3) have
    "(l, p) = (link, parent) \<or> (l, p) \<in> set (fst (findLoop links (markSeen link parent s)))"
    using NewContainer.hyps by (simp add: findLoop_new)
  then show ?case
  proof
    assume "(l, p) = (link, parent)"
    then show ?thesis using NewContainer.hyps by (simp add: resolvesTo_def)
  next
    assume y: "(l, p) \<in> set (fst (findLoop links (markSeen link parent s)))"
    from findLoop_yield [OF y] have "ident parent \<noteq> ident p" by (auto split: if_splits)
    then have "\<not> resolvesTo (document s) (ident p) link"
      using NewContainer.hyps by (simp add: resolvesTo_def)
    moreover have "find (resolvesTo (document s) (ident p)) links = Some l"
      using NewContainer.IH NewContainer.prems y by auto
    ultimately show ?thesis by simp
  qed
qed

lemma findLoop_all:
  "distinct (map ident links) \<Longrightarrow> ident ` set links \<inter> processedElements s = {} \<Longrightarrow>
   (\<lambda>e. ident (snd e)) ` set (fst (findLoop links s))
     = {c. (\<exists>l \<in> set links. resolvesTo (document s) c l) \<and> dataFilteredProcessed s c = None}"
proof (induction links s rule: findLoop_induct)
  case (Nil s)
  then show ?case by simp
next
  case (Seen link links s)
  then show ?case by auto
next
  case (NoContainer link links s)
  then show ?case by (auto simp: findLoop_none resolvesTo_def)
next
  case (OldContainer link links s parent)
  then show ?case by (auto simp: findLoop_old resolvesTo_def)
next
  case (NewContainer link links s parent)
  have "(\<lambda>e. ident (snd e)) ` set (fst (findLoop links (markSeen link parent s)))
         = {c. (\<exists>l \<in> set links. resolvesTo (document s) c l)
               \<and> c \<noteq> ident parent \<and> dataFilteredProcessed s c = None}"
    using NewContainer.IH NewContainer.prems by auto
  moreover have "resolvesTo (document s) c link = (c = ident parent)" for c
    using NewContainer.hyps by (auto simp: resolvesTo_def)
  ultimately show ?case
    using NewContainer.hyps by (auto simp: findLoop_new)
qed

lemma filterElement_chosen:
  assumes "dataFiltered s (ident p) = None"
  shows "filterElement (l, p) s =
           (if chosen (filteredUsernames s) (l, p)
            then s\<lparr>dataFiltered := (dataFiltered s)(ident p \<mapsto> ''true''),
                   blockedCount := blockedCount s + 1\<rparr>
            else s)"
  using assms
  by (simp add: filterElement_def chosen_def sellerName_def Let_def split: option.splits)

lemma Collect_Cons:
  "{e \<in> set (x # xs). P e} = (if P x then insert x {e \<in> set xs. P e} else {e \<in> set xs. P e})"
  by auto

lemma fold_filterElement_count:
  "distinct (map (\<lambda>e. ident (snd e)) els) \<Longrightarrow>
   \<forall>e \<in> set els. dataFiltered s (ident (snd e)) = None \<Longrightarrow>
   blockedCount (fold filterElement els s)
     = blockedCount s + int (length (filter (chosen (filteredUsernames s)) els))
   \<and> (\<forall>i. dataFiltered (fold filterElement els s) i
          = (if i \<in> (\<lambda>e. ident (snd e)) ` {e \<in> set els. chosen (filteredUsernames s) e}
             then Some ''true'' else dataFiltered s i))"
proof (induction els arbitrary: s)
  case Nil
  then show ?case by simp
next
  case (Cons e els)
  obtain l p where e: "e = (l, p)" by (cases e)
  let ?s = "filterElement (l, p) s"
  let ?U = "filteredUsernames s"
  let ?H = "(\<lambda>e. ident (snd e)) ` {e \<in> set els. chosen ?U e}"
  from Cons.prems have n: "dataFiltered s (ident p) = None" by (simp add: e)
  note fe = filterElement_chosen [OF n, of l]
  from Cons.prems(1) have "ident p \<notin> (\<lambda>e. ident (snd e)) ` set els" by (simp add: e)
  then have fresh: "\<forall>x \<in> set els. ident (snd x) \<noteq> ident p" by (metis imageI)
  have 2: "\<forall>x \<in> set els. dataFiltered ?s (ident (snd x)) = None"
  proof
    fix x assume x: "x \<in> set els"
    with fresh have "ident (snd x) \<noteq> ident p" by blast
    moreover from Cons.prems(2) x have "dataFiltered s (ident (snd x)) = None" by simp
    ultimately show "dataFiltered ?s (ident (snd x)) = None" by (simp add: fe)
  qed
  from Cons.prems(1) have 1: "distinct (map (\<lambda>e. ident (snd e)) els)" by simp
  have u: "filteredUsernames ?s = ?U" by simp
  from Cons.IH [OF 1 2]
  have c: "blockedCount (fold filterElement els ?s)
             = blockedCount ?s + int (length (filter (chosen ?U) els))"
    and m: "\<And>i. dataFiltered (fold filterElement els ?s) i
             = (if i \<in> ?H then Some ''true'' else dataFiltered ?s i)"
    unfolding u by simp_all
  have count: "blockedCount (fold filterElement (e # els) s)
      = blockedCount s + int (length (filter (chosen ?U) (e # els)))"
    using c by (simp add: e fe)
  have H: "(\<lambda>e. ident (snd e)) ` {x \<in> set (e # els). chosen ?U x}
             = (if chosen ?U (l, p) then insert (ident p) ?H else ?H)"
    by (simp only: Collect_Cons e) simp
  have marks: "dataFiltered (fold filterElement (e # els) s) i
      = (if i \<in> (\<lambda>e. ident (snd e)) ` {x \<in> set (e # els). chosen ?U x}
         then Some ''true'' else dataFiltered s i)" for i
    unfolding H using m [of i] by (simp add: e fe)
  from count marks show ?case by blast
qed

lemma clearMarkers_clean:
  assumes "engineMarkers s" and "i \<in> set (idents (document s))"
  shows "dataFiltered (clearMarkers s) i = None" and "dataFilteredProcessed (clearMarkers s) i = None"
  using assms
  by (auto simp: engineMarkers_def clearMarkers_filtered clearMarkers_processed)

lemma length_filter_same_set:
  assumes "distinct xs" and "distinct ys" and "set xs = set ys"
  shows "length (filter P xs) = length (filter P ys)"
  using assms by (simp add: distinct_length_filter)

lemma set_cards: "set (cards doc) = {c. \<exists>l \<in> set (sellerLinks doc). resolvesTo doc c l}"
proof -
  have "(c \<in> set (case findItemContainer doc l of None \<Rightarrow> [] | Some p \<Rightarrow> [ident p]))
          = resolvesTo doc c l" for c l
    by (cases "findItemContainer doc l") (auto simp: resolvesTo_def)
  then show ?thesis by (simp add: cards_def set_eq_iff)
qed

lemma isFilterUpdate_handled:
  assumes "isFilterUpdate message"
  shows "handleMessage message s
           = resetAndRefilter (s\<lparr>filteredUsernames := newSet (getProp message ''usernames'')\<rparr>)"
proof -
  from assms have "validate message = Inr True"
    and "getProp message ''action'' = JString ''updateFilters''"
    by (simp_all add: isFilterUpdate_def recognized_iff_valid)
  then show ?thesis by (simp add: handleMessage_def)
qed

lemma rescan_after_clear:
  assumes clean: "\<And>i. i \<in> set (idents (document s)) \<Longrightarrow>
                   dataFiltered s i = None \<and> dataFilteredProcessed s i = None"
    and fresh: "processedElements s = {}"
    and wf: "distinct (idents (document s))"
  shows "blockedCount (scan TheDocument s)
           = blockedCount s
             + int (length (filter (readSellerIn (filteredUsernames s) (document s))
                              (cards (document s))))"
    and "i \<in> set (idents (document s)) \<Longrightarrow>
           (dataFiltered (scan TheDocument s) i \<noteq> None)
             = (i \<in> set (cards (document s)) \<and> readSellerIn (filteredUsernames s) (document s) i)"
proof -
  let ?doc = "document s"
  let ?U = "filteredUsernames s"
  let ?links = "sellerLinks ?doc"
  let ?els = "fst (findLoop ?links s)"
  let ?s1 = "snd (findLoop ?links s)"
  let ?par = "\<lambda>e. ident (snd e)"
  have sc: "scan TheDocument s = fold filterElement ?els ?s1"
    by (simp add: scan_def findElementsInNode_def querySelectorAll_def sellerLinks_def)
  have dl: "distinct (map ident ?links)"
    using wf by (simp add: sellerLinks_def idents_def distinct_map_filter)
  have dj: "ident ` set ?links \<inter> processedElements s = {}"
    by (simp add: fresh)
  have indoc: "c \<in> set (idents ?doc)" if "l \<in> set ?links" "resolvesTo ?doc c l" for c l
  proof -
    from that(1) have "sellerLinkSelector l" by (simp add: sellerLinks_def)
    moreover from that(2) obtain p where "findItemContainer ?doc l = Some p" "ident p = c"
      by (auto simp: resolvesTo_def split: option.splits)
    ultimately show ?thesis using findItemContainer_in_doc by blast
  qed
  have unseen: "dataFilteredProcessed s c = None" if "l \<in> set ?links" "resolvesTo ?doc c l" for c l
    using clean [OF indoc [OF that]] by simp
  have par: "?par ` set ?els = set (cards ?doc)"
    unfolding findLoop_all [OF dl dj] set_cards using unseen by blast
  have dp: "distinct (map ?par ?els)" by (rule findLoop_distinct)
  have unf: "\<forall>e \<in> set ?els. dataFiltered ?s1 (ident (snd e)) = None"
  proof
    fix e assume "e \<in> set ?els"
    then have "?par e \<in> set (cards ?doc)" using par by blast
    then have "?par e \<in> set (idents ?doc)" using indoc by (auto simp: set_cards)
    then show "dataFiltered ?s1 (ident (snd e)) = None" using clean by simp
  qed
  have ch: "chosen ?U e = readSellerIn ?U ?doc (?par e)" if "e \<in> set ?els" for e
  proof -
    from that have "(fst e, snd e) \<in> set ?els" by simp
    from findLoop_first [OF dl dj this]
    have "readSeller ?doc (?par e) = sellerName (fst e)"
      by (simp add: readSeller_def firstSellerLink_def)
    then show ?thesis by (simp add: chosen_def readSellerIn_def)
  qed
  from fold_filterElement_count [OF dp unf]
  have cnt: "blockedCount (fold filterElement ?els ?s1)
               = blockedCount s + int (length (filter (chosen ?U) ?els))"
    and mk: "\<And>i. dataFiltered (fold filterElement ?els ?s1) i
               = (if i \<in> ?par ` {e \<in> set ?els. chosen ?U e} then Some ''true''
                  else dataFiltered s i)"
    by simp_all
  have "filter (chosen ?U) ?els = filter (\<lambda>e. readSellerIn ?U ?doc (?par e)) ?els"
    by (rule filter_cong) (simp_all add: ch)
  then have "length (filter (chosen ?U) ?els)
               = length (filter (readSellerIn ?U ?doc) (map ?par ?els))"
    by (simp add: filter_map comp_def)
  also have "\<dots> = length (filter (readSellerIn ?U ?doc) (cards ?doc))"
    using dp par by (intro length_filter_same_set) (simp_all add: cards_def)
  finally show "blockedCount (scan TheDocument s)
           = blockedCount s + int (length (filter (readSellerIn ?U ?doc) (cards ?doc)))"
    using cnt sc by simp
  have img: "?par ` {e \<in> set ?els. chosen ?U e}
               = {c \<in> set (cards ?doc). readSellerIn ?U ?doc c}"
  proof (intro set_eqI iffI)
    fix c assume "c \<in> ?par ` {e \<in> set ?els. chosen ?U e}"
    then obtain e where e: "e \<in> set ?els" "chosen ?U e" "c = ?par e" by blast
    from e(1) have "?par e \<in> set (cards ?doc)" using par by blast
    with e ch [OF e(1)] show "c \<in> {c \<in> set (cards ?doc). readSellerIn ?U ?doc c}" by simp
  next
    fix c assume "c \<in> {c \<in> set (cards ?doc). readSellerIn ?U ?doc c}"
    then have c: "c \<in> ?par ` set ?els" "readSellerIn ?U ?doc c" using par by simp_all
    from c(1) obtain e where e: "e \<in> set ?els" "c = ?par e" by blast
    with c(2) ch [OF e(1)] have "chosen ?U e" by simp
    with e show "c \<in> ?par ` {e \<in> set ?els. chosen ?U e}" by blast
  qed
  show "(dataFiltered (scan TheDocument s) i \<noteq> None)
             = (i \<in> set (cards ?doc) \<and> readSellerIn ?U ?doc i)"
    if "i \<in> set (idents ?doc)"
    using that clean [OF that] by (simp add: sc mk img)
qed

lemma fold_filterElement_usernames [simp]:
  "filteredUsernames (fold filterElement els s) = filteredUsernames s"
  by (induction els arbitrary: s) simp_all

text \<open>
  Where the first seller link of every card shows the name, the engine reads for a card
  the seller the card shows.
\<close>

lemma readSeller_shown:
  assumes "readSeller doc c = Some u"
  shows "u \<in> set (sellerNames doc c)"
proof -
  from assms obtain l where f: "find (resolvesTo doc c) (sellerLinks doc) = Some l"
    and n: "sellerName l = Some u"
    by (auto simp: readSeller_def firstSellerLink_def split: option.splits)
  from f have "l \<in> set (filter (resolvesTo doc c) (sellerLinks doc))"
    by (auto dest: find_Some_in)
  with n show ?thesis
    by (force simp: sellerNames_def)
qed

lemma nameInFirstLink_read:
  assumes "nameInFirstLink doc" and "c \<in> set (cards doc)"
  shows "namedSellerIn U doc c = readSellerIn U doc c"
proof
  assume "namedSellerIn U doc c"
  then obtain u where u: "u \<in> set (sellerNames doc c)" "u \<noteq> []" "u \<in> U"
    by (auto simp: namedSellerIn_def list_ex_iff)
  from assms u(1) have "u = [] \<or> readSeller doc c = Some u"
    by (auto simp: nameInFirstLink_def list_all_iff)
  with u show "readSellerIn U doc c"
    by (simp add: readSellerIn_def)
next
  assume "readSellerIn U doc c"
  then obtain u where u: "readSeller doc c = Some u" "u \<noteq> []" "u \<in> U"
    by (auto simp: readSellerIn_def split: option.splits)
  from u(1) have "u \<in> set (sellerNames doc c)" by (rule readSeller_shown)
  with u show "namedSellerIn U doc c"
    by (auto simp: namedSellerIn_def list_ex_iff)
qed

text \<open>
  The markers are the engine's own in every state reached from a fresh page, as long as
  the page writes no marker of another value.
\<close>

lemma filterElement_engineMarkers: "engineMarkers s \<Longrightarrow> engineMarkers (filterElement e s)"
proof -
  assume m: "engineMarkers s"
  obtain l p where e: "e = (l, p)" by (cases e)
  from filterElement_cases [of l p s] m show ?thesis
    unfolding e by (elim disjE conjE) (simp_all add: engineMarkers_def)
qed

lemma scan_engineMarkers: "engineMarkers s \<Longrightarrow> engineMarkers (scan node s)"
proof -
  assume m: "engineMarkers s"
  have f: "engineMarkers (fold filterElement els s)" if "engineMarkers s" for els s
    using that by (induction els arbitrary: s) (simp_all add: filterElement_engineMarkers)
  have "engineMarkers (snd (findLoop links s))" for links
    using m by (simp add: engineMarkers_def findLoop_seen_after)
  then show ?thesis by (simp add: scan_def findElementsInNode_def f)
qed

lemma clearMarkers_engineMarkers: "engineMarkers s \<Longrightarrow> engineMarkers (clearMarkers s)"
  by (simp add: engineMarkers_def clearMarkers_filtered clearMarkers_processed)

lemma setAttributes_values:
  assumes "list_all (\<lambda>w. snd w = None \<or> snd w = Some ''true'') writes"
    and "\<And>i. table i = None \<or> table i = Some ''true''"
  shows "setAttributes writes table i = None \<or> setAttributes writes table i = Some ''true''"
proof -
  have "\<forall>i. fold (\<lambda>w t. t(fst w := snd w)) writes table i = None
            \<or> fold (\<lambda>w t. t(fst w := snd w)) writes table i = Some ''true''"
    using assms
  proof (induction writes arbitrary: table)
    case Nil
    then show ?case by simp
  next
    case (Cons w writes)
    from Cons.prems have "\<And>i. (table(fst w := snd w)) i = None
                            \<or> (table(fst w := snd w)) i = Some ''true''"
      by auto
    moreover from Cons.prems have "list_all (\<lambda>w. snd w = None \<or> snd w = Some ''true'') writes"
      by simp
    ultimately show ?case
      using Cons.IH [of "table(fst w := snd w)"] by simp
  qed
  then show ?thesis by (simp add: setAttributes_def)
qed

lemma step_engineMarkers:
  assumes "engineMarkers s" and "ownValues [e]"
  shows "engineMarkers (step e s)"
proof (cases "\<exists>d filtered processed. e = PageChange d filtered processed")
  case True
  then obtain d filtered processed where e: "e = PageChange d filtered processed" by blast
  from assms(2) have "list_all (\<lambda>w. snd w = None \<or> snd w = Some ''true'') filtered"
    and "list_all (\<lambda>w. snd w = None \<or> snd w = Some ''true'') processed"
    by (simp_all add: ownValues_def e)
  with assms(1) show ?thesis
    by (simp add: e engineMarkers_def setAttributes_values)
next
  case False
  show ?thesis
  proof (rule engine_step_invariant [where I = engineMarkers])
    show "engineMarkers s" by (rule assms(1))
    show "e \<noteq> PageChange d filtered processed" for d filtered processed using False by simp
    show "engineMarkers s' = engineMarkers s"
      if "dataFiltered s' = dataFiltered s" "dataFilteredProcessed s' = dataFilteredProcessed s"
      for s s' using that by (simp add: engineMarkers_def)
  qed (simp_all add: scan_engineMarkers clearMarkers_engineMarkers)
qed

lemma initialize_engineMarkers: "engineMarkers s \<Longrightarrow> engineMarkers (initialize us sc s)"
proof -
  assume m: "engineMarkers s"
  let ?s = "s\<lparr>filteredUsernames := set us, showBlockedCount := sc\<rparr>"
  from m have "engineMarkers ?s" by (simp add: engineMarkers_def)
  then have "engineMarkers (scan TheDocument ?s)" by (rule scan_engineMarkers)
  then have 1: "engineMarkers (updateBadge (updateBadge (scan TheDocument ?s)))"
    by (simp add: engineMarkers_def)
  from m have 2: "engineMarkers (s\<lparr>console := console s @ [ExtensionContextInvalid]\<rparr>)"
    by (simp add: engineMarkers_def)
  from 1 2 show ?thesis
    by (simp add: initialize_def Let_def filterExistingContent_scan)
qed

lemma fresh_engineMarkers: "engineMarkers (newFabFilter doc rt)"
  by (simp add: engineMarkers_def newFabFilter_def)

lemma reachable_engineMarkers:
  assumes "ownValues es"
  shows "engineMarkers (run es (initialize us sc (newFabFilter doc rt)))"
proof -
  have r: "engineMarkers (run es s)" if "engineMarkers s" "ownValues es" for s
    using that unfolding run_def
  proof (induction es arbitrary: s)
    case Nil
    then show ?case by simp
  next
    case (Cons e es)
    from Cons.prems have "ownValues [e]" "ownValues es" by (simp_all add: ownValues_def)
    with Cons show ?case by (simp add: step_engineMarkers)
  qed
  have "engineMarkers (initialize us sc (newFabFilter doc rt))"
    by (intro initialize_engineMarkers fresh_engineMarkers)
  then show ?thesis using assms by (rule r)
qed

text \<open>
  C2, amended. A filter-list update with the usernames \<open>U\<close>, in a state whose markers
  are the engine's own and on a document whose elements are distinct objects: the handler
  stores \<open>U\<close> as the username set, sets the count to 0, empties the processed set and
  removes both markers from every element of the document, and then scans the whole
  document. Afterwards the username set is \<open>U\<close>. If moreover, in every card, the first
  seller link shows the name (each username that is not empty and that a seller link of
  the card shows), then the count is the number of cards that show a seller username that
  is not empty and is in \<open>U\<close>, and exactly those cards carry \<^verbatim>\<open>data-filtered\<close>. (The count
  on a page with a card whose first seller link does not show the name is left open.)
\<close>

theorem filtersUpdated_recount:
  assumes "isFilterUpdate message" and "U = newSet (getProp message ''usernames'')"
    and "engineMarkers s" and "distinct (idents (document s))"
  shows "handleMessage message s
           = filterExistingContent (clearMarkers (s\<lparr>filteredUsernames := U\<rparr>))
     \<and> filteredUsernames (handleMessage message s) = U
     \<and> filteredUsernames (clearMarkers (s\<lparr>filteredUsernames := U\<rparr>)) = U
     \<and> blockedCount (clearMarkers (s\<lparr>filteredUsernames := U\<rparr>)) = 0
     \<and> processedElements (clearMarkers (s\<lparr>filteredUsernames := U\<rparr>)) = {}
     \<and> (\<forall>i \<in> set (idents (document s)).
           dataFiltered (clearMarkers (s\<lparr>filteredUsernames := U\<rparr>)) i = None
           \<and> dataFilteredProcessed (clearMarkers (s\<lparr>filteredUsernames := U\<rparr>)) i = None)
     \<and> (nameInFirstLink (document s) \<longrightarrow>
          blockedCount (handleMessage message s)
            = int (length (filter (namedSellerIn U (document s)) (cards (document s))))
          \<and> (\<forall>i \<in> set (idents (document s)).
                (dataFiltered (handleMessage message s) i \<noteq> None)
                  = (i \<in> set (cards (document s)) \<and> namedSellerIn U (document s) i)))"
proof -
  let ?s0 = "clearMarkers (s\<lparr>filteredUsernames := U\<rparr>)"
  have h: "handleMessage message s = updateBadge (scan TheDocument ?s0)"
    using assms(1,2)
    by (simp add: isFilterUpdate_handled resetAndRefilter_clear filterExistingContent_scan)
  have em: "engineMarkers (s\<lparr>filteredUsernames := U\<rparr>)"
    using assms(3) by (simp add: engineMarkers_def)
  have clean: "dataFiltered ?s0 i = None \<and> dataFilteredProcessed ?s0 i = None"
    if "i \<in> set (idents (document ?s0))" for i
    using that clearMarkers_clean [OF em, of i] by simp
  have fresh: "processedElements ?s0 = {}" by simp
  have wf: "distinct (idents (document ?s0))" using assms(4) by simp
  note rescan = rescan_after_clear [OF clean fresh wf]
  have 1: "handleMessage message s = filterExistingContent ?s0"
    by (simp add: h filterExistingContent_scan)
  have 2: "filteredUsernames (handleMessage message s) = U"
    by (simp add: h scan_def findElementsInNode_def)
  have 3: "\<forall>i \<in> set (idents (document s)).
           dataFiltered ?s0 i = None \<and> dataFilteredProcessed ?s0 i = None"
    using clean by simp
  have 4: "blockedCount (handleMessage message s)
             = int (length (filter (namedSellerIn U (document s)) (cards (document s))))
           \<and> (\<forall>i \<in> set (idents (document s)).
                 (dataFiltered (handleMessage message s) i \<noteq> None)
                   = (i \<in> set (cards (document s)) \<and> namedSellerIn U (document s) i))"
    if first: "nameInFirstLink (document s)"
  proof
    note read = nameInFirstLink_read [OF first, of _ U]
    have "filter (namedSellerIn U (document s)) (cards (document s))
            = filter (readSellerIn U (document s)) (cards (document s))"
      by (rule filter_cong) (simp_all add: read)
    then show "blockedCount (handleMessage message s)
             = int (length (filter (namedSellerIn U (document s)) (cards (document s))))"
      using rescan(1) by (simp add: h)
    show "\<forall>i \<in> set (idents (document s)).
             (dataFiltered (handleMessage message s) i \<noteq> None)
               = (i \<in> set (cards (document s)) \<and> namedSellerIn U (document s) i)"
    proof
      fix i assume "i \<in> set (idents (document s))"
      then have "(dataFiltered (handleMessage message s) i \<noteq> None)
               = (i \<in> set (cards (document s)) \<and> readSellerIn U (document s) i)"
        using rescan(2) by (simp add: h)
      then show "(dataFiltered (handleMessage message s) i \<noteq> None)
               = (i \<in> set (cards (document s)) \<and> namedSellerIn U (document s) i)"
        using read by blast
    qed
  qed
  from 1 2 3 4 show ?thesis by simp
qed

text \<open>
  C2, as stated, fails in two ways. When the username set holds the empty string and a
  card has a blank username element, one card shows a seller username of the set and the
  count is 0: the filter skips an empty username. And when a card links its seller twice,
  first around the avatar and then with the name, one card shows a seller username of the
  set and the count is 0: discovery yields the card with the avatar link, in which the
  filter finds no username.
\<close>

theorem filtersUpdated_miscount_counterexample:
  "isFilterUpdate blankNames
   \<and> blockedCount (handleMessage blankNames (newFabFilter blankPage True)) = 0
   \<and> length (filter (sellerIn (newSet (getProp blankNames ''usernames'')) blankPage)
               (cards blankPage)) = 1
   \<and> isFilterUpdate bobNames
   \<and> blockedCount (handleMessage bobNames (newFabFilter avatarPage True)) = 0
   \<and> length (filter (sellerIn (newSet (getProp bobNames ''usernames'')) avatarPage)
               (cards avatarPage)) = 1
   \<and> sellerNames avatarPage 2 = [''bob''] \<and> readSeller avatarPage 2 = None"
  by code_simp

lemma aliceNames_update: "isFilterUpdate aliceNames"
  by code_simp

lemma aliceNames_set: "{''alice''} = newSet (getProp aliceNames ''usernames'')"
  by (simp add: aliceNames_def filtersMessage_def getProp_def newSet_def)

lemma bobFiltered_engineMarkers: "engineMarkers bobFiltered"
proof -
  have "ownValues [Message bobNames]" by (simp add: ownValues_def)
  with fresh_engineMarkers have "engineMarkers (step (Message bobNames) (newFabFilter twoSellers True))"
    by (rule step_engineMarkers)
  then show ?thesis by (simp add: bobFiltered_def)
qed

lemma bobFiltered_page:
  "distinct (idents (document bobFiltered))"
  "nameInFirstLink (document bobFiltered)"
  "idents (document bobFiltered) = [0, 1, 2, 3, 4, 5, 6, 10, 11, 12, 13, 14]"
  "cards (document bobFiltered) = [2, 10]"
  "filter (namedSellerIn {''alice''} (document bobFiltered)) (cards (document bobFiltered)) = [2]"
  by code_simp+

lemma bobFiltered_fields:
  "filteredUsernames bobFiltered = {''bob''}" "blockedCount bobFiltered = 1"
  "processedElements bobFiltered = {5, 13}"
  "dataFiltered bobFiltered 2 = None" "dataFiltered bobFiltered 10 = Some ''true''"
  "dataFilteredProcessed bobFiltered 2 = Some ''true''"
  by code_simp+

theorem filtersUpdated_recount_witness:
  "isFilterUpdate aliceNames \<and> {''alice''} = newSet (getProp aliceNames ''usernames'')
   \<and> engineMarkers bobFiltered \<and> distinct (idents (document bobFiltered))
   \<and> nameInFirstLink (document bobFiltered)
   \<and> filteredUsernames bobFiltered = {''bob''} \<and> blockedCount bobFiltered = 1
   \<and> processedElements bobFiltered = {5, 13}
   \<and> dataFiltered bobFiltered 2 = None \<and> dataFiltered bobFiltered 10 = Some ''true''
   \<and> dataFilteredProcessed bobFiltered 2 = Some ''true''
   \<and> blockedCount (clearMarkers (bobFiltered\<lparr>filteredUsernames := {''alice''}\<rparr>)) = 0
   \<and> processedElements (clearMarkers (bobFiltered\<lparr>filteredUsernames := {''alice''}\<rparr>)) = {}
   \<and> dataFiltered (clearMarkers (bobFiltered\<lparr>filteredUsernames := {''alice''}\<rparr>)) 10 = None
   \<and> dataFilteredProcessed (clearMarkers (bobFiltered\<lparr>filteredUsernames := {''alice''}\<rparr>)) 2
       = None
   \<and> filteredUsernames (handleMessage aliceNames bobFiltered) = {''alice''}
   \<and> blockedCount (handleMessage aliceNames bobFiltered) = 1
   \<and> dataFiltered (handleMessage aliceNames bobFiltered) 2 \<noteq> None
   \<and> dataFiltered (handleMessage aliceNames bobFiltered) 10 = None"
proof -
  note t = filtersUpdated_recount
    [OF aliceNames_update aliceNames_set bobFiltered_engineMarkers bobFiltered_page(1),
     THEN conjunct2]
  have i: "2 \<in> set (idents (document bobFiltered))" "10 \<in> set (idents (document bobFiltered))"
    by (simp_all add: bobFiltered_page)
  from t have c: "\<forall>i \<in> set (idents (document bobFiltered)).
           dataFiltered (clearMarkers (bobFiltered\<lparr>filteredUsernames := {''alice''}\<rparr>)) i = None
           \<and> dataFilteredProcessed (clearMarkers (bobFiltered\<lparr>filteredUsernames := {''alice''}\<rparr>)) i
               = None"
    by blast
  from t bobFiltered_page(2) have m: "\<forall>i \<in> set (idents (document bobFiltered)).
           (dataFiltered (handleMessage aliceNames bobFiltered) i \<noteq> None)
             = (i \<in> set (cards (document bobFiltered))
                \<and> namedSellerIn {''alice''} (document bobFiltered) i)"
    by blast
  have n: "namedSellerIn {''alice''} (document bobFiltered) 2"
    "\<not> namedSellerIn {''alice''} (document bobFiltered) 10"
    using bobFiltered_page(5) by (simp_all add: bobFiltered_page(4) split: if_splits)
  from t bobFiltered_page(2)
  have 1: "filteredUsernames (handleMessage aliceNames bobFiltered) = {''alice''}"
    "blockedCount (handleMessage aliceNames bobFiltered) = 1"
    "blockedCount (clearMarkers (bobFiltered\<lparr>filteredUsernames := {''alice''}\<rparr>)) = 0"
    "processedElements (clearMarkers (bobFiltered\<lparr>filteredUsernames := {''alice''}\<rparr>)) = {}"
    by (simp_all add: bobFiltered_page(5))
  from c i have 2: "dataFiltered (clearMarkers (bobFiltered\<lparr>filteredUsernames := {''alice''}\<rparr>)) 10 = None"
    "dataFilteredProcessed (clearMarkers (bobFiltered\<lparr>filteredUsernames := {''alice''}\<rparr>)) 2 = None"
    by blast+
  have 3: "dataFiltered (handleMessage aliceNames bobFiltered) 2 \<noteq> None"
    "dataFiltered (handleMessage aliceNames bobFiltered) 10 = None"
    using bspec [OF m i(1)] bspec [OF m i(2)] n by (simp_all add: bobFiltered_page(4))
  from 1 2 3 show ?thesis
    using aliceNames_update aliceNames_set bobFiltered_engineMarkers bobFiltered_page(1,2)
      bobFiltered_fields
    by simp
qed


section \<open>One pass for one burst\<close>

lemma elementIds_simps [simp]:
  "elementIds [] = []"
  "elementIds (ElementNode i # ns) = i # elementIds ns"
  "elementIds (OtherNode # ns) = elementIds ns"
  by (simp_all add: elementIds_def)

lemma addedElements_simps [simp]:
  "addedElements [] = []"
  "addedElements (m # ms)
     = (if mutationType m = ''childList'' then elementIds (addedNodes m) else []) @ addedElements ms"
  by (simp_all add: addedElements_def)

lemma fold_addPending:
  "set (pendingMutations (fold (\<lambda>node s. case node of ElementNode i \<Rightarrow> addPending i s | OtherNode \<Rightarrow> s) ns s))
     = set (pendingMutations s) \<union> set (elementIds ns)
   \<and> (distinct (pendingMutations s) \<longrightarrow>
        distinct (pendingMutations (fold (\<lambda>node s. case node of ElementNode i \<Rightarrow> addPending i s | OtherNode \<Rightarrow> s) ns s)))"
proof (induction ns arbitrary: s)
  case Nil
  show ?case by simp
next
  case (Cons n ns)
  show ?case
  proof (cases n)
    case (ElementNode i)
    show ?thesis
      using Cons.IH [of "addPending i s"] ElementNode
      by (cases "i \<in> set (pendingMutations s)") (auto simp: addPending_def)
  next
    case OtherNode
    then show ?thesis using Cons.IH [of s] by simp
  qed
qed

lemma batchMutation_pending:
  "set (pendingMutations (batchMutation m s))
     = set (pendingMutations s)
       \<union> set (if mutationType m = ''childList'' then elementIds (addedNodes m) else [])
   \<and> (distinct (pendingMutations s) \<longrightarrow> distinct (pendingMutations (batchMutation m s)))"
  using fold_addPending [of "addedNodes m" s] by (simp add: batchMutation_def)

lemma fold_batchMutation_pending:
  "set (pendingMutations (fold batchMutation ms s))
     = set (pendingMutations s) \<union> set (addedElements ms)
   \<and> (distinct (pendingMutations s) \<longrightarrow> distinct (pendingMutations (fold batchMutation ms s)))"
proof (induction ms arbitrary: s)
  case Nil
  show ?case by simp
next
  case (Cons m ms)
  show ?case
    using Cons.IH [of "batchMutation m s"] batchMutation_pending [of m s]
    by (simp del: set_append add: Un_assoc) (simp add: Un_assoc)
qed

lemma observerCallback_pendingMutations:
  "pendingMutations (observerCallback records s) = pendingMutations (fold batchMutation records s)"
  by (simp add: observerCallback_def Let_def setTimeout_def clearTimeout_def
        split: option.splits)

lemma observerCallback_pending:
  "set (pendingMutations (observerCallback records s))
     = set (pendingMutations s) \<union> set (addedElements records)"
  "distinct (pendingMutations s) \<Longrightarrow> distinct (pendingMutations (observerCallback records s))"
  using fold_batchMutation_pending [of records s]
  by (simp_all add: observerCallback_pendingMutations)

lemma observerCallback_armed: "armed s \<Longrightarrow> armed (observerCallback records s)"
proof -
  assume a: "armed s"
  let ?s1 = "fold batchMutation records s"
  have p: "set (pendingMutations ?s1) = set (pendingMutations s) \<union> set (addedElements records)"
    using fold_batchMutation_pending [of records s] by simp
  show ?thesis
  proof (cases "pendingMutations ?s1 = []")
    case True
    with p have "pendingMutations s = []" by simp
    with a True show ?thesis
      by (simp add: armed_def observerCallback_def Let_def)
  next
    case False
    show ?thesis
    proof (cases "pendingMutations s = []")
      case True
      with a False show ?thesis
        by (simp add: armed_def observerCallback_def Let_def setTimeout_def clearTimeout_def
              split: option.splits)
    next
      case ne: False
      with a obtain h where "timers s = [(h, clock s + 100)]" "mutationTimeout s = Some h"
        by (auto simp: armed_def)
      with a False show ?thesis
        by (simp add: armed_def observerCallback_def Let_def setTimeout_def clearTimeout_def)
    qed
  qed
qed

lemma elapse_within:
  assumes "armed s" and "gap < 100"
  shows "elapse gap s = s\<lparr>clock := clock s + gap\<rparr>"
proof (cases "pendingMutations s = []")
  case True
  with assms show ?thesis by (simp add: armed_def elapse_def Let_def)
next
  case False
  with assms obtain h where "timers s = [(h, clock s + 100)]" by (auto simp: armed_def)
  with assms show ?thesis by (simp add: elapse_def Let_def)
qed

lemma elapse_expired:
  assumes "armed s" and "pendingMutations s \<noteq> []" and "100 \<le> d"
  shows "elapse d s = s\<lparr>clock := clock s + d, timers := [], frames := Suc 0\<rparr>"
proof -
  from assms obtain h where "timers s = [(h, clock s + 100)]" "frames s = 0"
    by (auto simp: armed_def)
  with assms show ?thesis
    by (simp add: elapse_def Let_def processPendingMutations_def)
qed

lemma later_callback_armed:
  assumes "armed s" and "gap < 100"
  shows "armed (observerCallback records (elapse gap s))"
proof -
  let ?s = "s\<lparr>clock := clock s + gap\<rparr>"
  let ?s1 = "fold batchMutation records ?s"
  have e: "elapse gap s = ?s" using assms by (rule elapse_within)
  have p: "set (pendingMutations ?s1) = set (pendingMutations s) \<union> set (addedElements records)"
    using fold_batchMutation_pending [of records ?s] by simp
  show ?thesis
  proof (cases "pendingMutations ?s1 = []")
    case True
    with p have "pendingMutations s = []" by simp
    with assms True show ?thesis
      by (simp add: e armed_def observerCallback_def Let_def)
  next
    case False
    show ?thesis
    proof (cases "pendingMutations s = []")
      case True
      with assms False show ?thesis
        by (simp add: e armed_def observerCallback_def Let_def setTimeout_def clearTimeout_def
              split: option.splits)
    next
      case ne: False
      with assms obtain h where "timers s = [(h, clock s + 100)]" "mutationTimeout s = Some h"
        by (auto simp: armed_def)
      with assms False show ?thesis
        by (simp add: e armed_def observerCallback_def Let_def setTimeout_def clearTimeout_def)
    qed
  qed
qed

lemma untouched_refl: "untouched s s"
  by (simp add: untouched_def)

lemma untouched_trans: "untouched s s' \<Longrightarrow> untouched s' s'' \<Longrightarrow> untouched s s''"
  by (simp add: untouched_def)

lemma untouched_callback: "untouched s (observerCallback records s)"
  by (simp add: untouched_def)

lemma untouched_elapse: "untouched s (elapse ms s)"
  by (simp add: untouched_def)

lemma later_callbacks:
  assumes "armed s" and "distinct (pendingMutations s)" and "withinWindow rest"
  shows "armed (fold step (concat (map (\<lambda>b. [Elapse (fst b), Mutations (snd b)]) rest)) s)
    \<and> untouched s (fold step (concat (map (\<lambda>b. [Elapse (fst b), Mutations (snd b)]) rest)) s)
    \<and> distinct (pendingMutations
          (fold step (concat (map (\<lambda>b. [Elapse (fst b), Mutations (snd b)]) rest)) s))
    \<and> set (pendingMutations
          (fold step (concat (map (\<lambda>b. [Elapse (fst b), Mutations (snd b)]) rest)) s))
        = set (pendingMutations s) \<union> set (addedElements (concat (map snd rest)))"
  using assms
proof (induction rest arbitrary: s)
  case Nil
  then show ?case by (simp add: untouched_refl)
next
  case (Cons b rest)
  let ?s = "observerCallback (snd b) (elapse (fst b) s)"
  from Cons.prems have gap: "fst b < 100" and w: "withinWindow rest"
    by (simp_all add: withinWindow_def)
  have a: "armed ?s" using Cons.prems(1) gap by (rule later_callback_armed)
  have d: "distinct (pendingMutations ?s)"
    using Cons.prems(2) by (simp add: observerCallback_pending)
  have p: "set (pendingMutations ?s) = set (pendingMutations s) \<union> set (addedElements (snd b))"
    by (simp add: observerCallback_pending)
  have u: "untouched s ?s"
    using untouched_elapse untouched_callback by (rule untouched_trans)
  have ae: "addedElements (concat (map snd (b # rest)))
              = addedElements (snd b) @ addedElements (concat (map snd rest))"
    by (simp add: addedElements_def)
  from Cons.IH [OF a d w] u p show ?case
    unfolding ae by (auto intro: untouched_trans)
qed

lemma fold_filterElement_rest [simp]:
  "sent (fold filterElement els s) = sent s"
  "runtimeId (fold filterElement els s) = runtimeId s"
  "timers (fold filterElement els s) = timers s"
  "frames (fold filterElement els s) = frames s"
  "pendingMutations (fold filterElement els s) = pendingMutations s"
  "showBlockedCount (fold filterElement els s) = showBlockedCount s"
  by (induction els arbitrary: s) simp_all

lemma processNode_fields [simp]:
  "document (processNode i s) = document s"
  "sent (processNode i s) = sent s"
  "runtimeId (processNode i s) = runtimeId s"
  "timers (processNode i s) = timers s"
  "frames (processNode i s) = frames s"
  "pendingMutations (processNode i s) = pendingMutations s"
  "showBlockedCount (processNode i s) = showBlockedCount s"
  by (simp_all add: processNode_scan scan_def findElementsInNode_def split: option.splits)

lemma fold_processNode_fields [simp]:
  "document (fold processNode ns s) = document s"
  "sent (fold processNode ns s) = sent s"
  "runtimeId (fold processNode ns s) = runtimeId s"
  "timers (fold processNode ns s) = timers s"
  "frames (fold processNode ns s) = frames s"
  "pendingMutations (fold processNode ns s) = pendingMutations s"
  "showBlockedCount (fold processNode ns s) = showBlockedCount s"
  by (induction ns arbitrary: s) simp_all

lemma fold_processNode_attached:
  "fold processNode ns s = fold processNode (filter (contains (document s)) ns) s"
proof (induction ns arbitrary: s)
  case Nil
  show ?case by simp
next
  case (Cons n ns)
  show ?case
  proof (cases "contains (document s) n")
    case True
    then show ?thesis using Cons.IH [of "processNode n s"] by simp
  next
    case False
    then have "processNode n s = s" by (simp add: processNode_def contains_def)
    with False show ?thesis using Cons.IH [of s] by simp
  qed
qed

text \<open>
  C8, amended. The watcher is quiet; then the observer is called several times, each call less than
  the debounce delay of 100 ms after the one before, and the calls add at least one element
  node. During the burst nothing but the pending set, the timers and the clock changes: no
  pass runs and no badge update is sent; at its end exactly one timer is running and the
  pending set holds the added elements, each once. When the delay has passed and the next
  animation frame comes, the whole outcome is that of one pass: the pending set is taken
  and cleared, the nodes no longer in the document are dropped, each remaining node is
  scanned and each result filtered, and \<open>updateBadge\<close> is called once at the end. After
  that the watcher is quiet again, and one message more has been sent (none if the
  extension context is gone).
\<close>

theorem burst_one_pass:
  assumes "quiet s" and "withinWindow rest"
    and "addedElements (first @ concat (map snd rest)) \<noteq> []" and "100 \<le> d"
  shows "untouched s (run (burst first rest) s)
    \<and> frames (run (burst first rest) s) = 0
    \<and> (\<exists>h. timers (run (burst first rest) s) = [(h, clock (run (burst first rest) s) + 100)])
    \<and> distinct (pendingMutations (run (burst first rest) s))
    \<and> set (pendingMutations (run (burst first rest) s))
        = set (addedElements (first @ concat (map snd rest)))
    \<and> run (burst first rest @ [Elapse d, AnimationFrame]) s
        = updateBadge
            (fold processNode
               (filter (contains (document s)) (pendingMutations (run (burst first rest) s)))
               ((run (burst first rest) s)
                  \<lparr>clock := clock (run (burst first rest) s) + d, timers := [], frames := 0,
                   pendingMutations := []\<rparr>))
    \<and> quiet (run (burst first rest @ [Elapse d, AnimationFrame]) s)
    \<and> length (sent (run (burst first rest @ [Elapse d, AnimationFrame]) s))
        = length (sent s) + (if runtimeId s then 1 else 0)"
proof -
  let ?rest = "concat (map (\<lambda>b. [Elapse (fst b), Mutations (snd b)]) rest)"
  let ?s0 = "observerCallback first s"
  let ?b = "run (burst first rest) s"
  have b: "?b = fold step ?rest ?s0" by (simp add: run_def burst_def)
  from assms(1) have "armed s" by (simp add: quiet_def armed_def)
  then have a0: "armed ?s0" by (rule observerCallback_armed)
  from assms(1) have d0: "distinct (pendingMutations ?s0)"
    by (simp add: observerCallback_pending quiet_def)
  from assms(1) have p0: "set (pendingMutations ?s0) = set (addedElements first)"
    by (simp add: observerCallback_pending quiet_def)
  from later_callbacks [OF a0 d0 assms(2)]
  have a: "armed ?b" and u1: "untouched ?s0 ?b" and dist: "distinct (pendingMutations ?b)"
    and p: "set (pendingMutations ?b)
              = set (pendingMutations ?s0) \<union> set (addedElements (concat (map snd rest)))"
    unfolding b by simp_all
  have u: "untouched s ?b" using untouched_callback u1 by (rule untouched_trans)
  have pe: "set (pendingMutations ?b) = set (addedElements (first @ concat (map snd rest)))"
    using p p0 by (simp add: addedElements_def)
  with assms(3) have ne: "pendingMutations ?b \<noteq> []" by auto
  from a ne have fr: "frames ?b = 0"
    and tm: "\<exists>h. timers ?b = [(h, clock ?b + 100)]"
    by (auto simp: armed_def)
  let ?x = "?b\<lparr>clock := clock ?b + d, timers := [], frames := 0\<rparr>"
  have "run (burst first rest @ [Elapse d, AnimationFrame]) s
          = animationFrame (elapse d ?b)"
    by (simp add: run_def)
  also have "\<dots> = frameCallback ?x"
    by (simp add: elapse_expired [OF a ne assms(4)] animationFrame_def)
  also have "\<dots> = updateBadge (fold processNode (pendingMutations ?b)
                       (?x\<lparr>pendingMutations := []\<rparr>))"
    by (simp add: frameCallback_def Let_def)
  also have "\<dots> = updateBadge (fold processNode
                       (filter (contains (document s)) (pendingMutations ?b))
                       (?x\<lparr>pendingMutations := []\<rparr>))"
    using u by (subst fold_processNode_attached) (simp add: untouched_def)
  finally have r: "run (burst first rest @ [Elapse d, AnimationFrame]) s
        = updateBadge
            (fold processNode
               (filter (contains (document s)) (pendingMutations ?b))
               (?b\<lparr>clock := clock ?b + d, timers := [], frames := 0, pendingMutations := []\<rparr>))"
    by simp
  have q: "quiet (run (burst first rest @ [Elapse d, AnimationFrame]) s)"
    unfolding r by (simp add: quiet_def)
  have sn: "length (sent (run (burst first rest @ [Elapse d, AnimationFrame]) s))
        = length (sent s) + (if runtimeId s then 1 else 0)"
    unfolding r using u by (simp add: updateBadge_def sendMessageSafely_def untouched_def)
  from u fr tm dist pe r q sn show ?thesis by blast
qed

lemma watching_quiet: "quiet watching"
  by (simp add: quiet_def watching_def filtering_def newFabFilter_def)

lemma fiveAdded_within: "withinWindow fiveAdded"
  by code_simp

lemma fiveAdded_elements: "addedElements ([childList [10]] @ concat (map snd fiveAdded)) \<noteq> []"
  by code_simp

lemma fiveAdded_sent:
  "sent (run (burst [childList [10]] fiveAdded @ [Elapse 100, AnimationFrame]) watching)
     = [\<lparr>action = ''updateBadge'', badgeText = ''2'', color = ''#f44336''\<rparr>]"
  by code_simp

lemma watching_runtime: "runtimeId watching" "sent watching = []"
  by (simp_all add: watching_def filtering_def newFabFilter_def)

theorem burst_one_pass_witness:
  "quiet watching \<and> withinWindow fiveAdded
   \<and> addedElements ([childList [10]] @ concat (map snd fiveAdded)) \<noteq> []
   \<and> (100::nat) \<le> 100
   \<and> quiet (run (burst [childList [10]] fiveAdded @ [Elapse 100, AnimationFrame]) watching)
   \<and> length (sent (run (burst [childList [10]] fiveAdded @ [Elapse 100, AnimationFrame]) watching)) = 1
   \<and> sent (run (burst [childList [10]] fiveAdded @ [Elapse 100, AnimationFrame]) watching)
       = [\<lparr>action = ''updateBadge'', badgeText = ''2'', color = ''#f44336''\<rparr>]"
proof -
  note one = burst_one_pass [OF watching_quiet fiveAdded_within fiveAdded_elements, of 100]
  from one
  have "quiet (run (burst [childList [10]] fiveAdded @ [Elapse 100, AnimationFrame]) watching)"
    by blast
  moreover from one
  have "length (sent (run (burst [childList [10]] fiveAdded @ [Elapse 100, AnimationFrame]) watching))
          = length (sent watching) + (if runtimeId watching then 1 else 0)"
    by blast
  ultimately show ?thesis
    using watching_quiet fiveAdded_within fiveAdded_elements fiveAdded_sent watching_runtime
    by simp
qed

text \<open>
  C8, as stated, fails for a burst that begins while the animation-frame callback of an
  earlier burst is still queued: when the delay has passed a second callback is queued,
  both run at the next frame, and two badge updates are sent for the burst (the second
  pass finds nothing pending).
\<close>

theorem burst_two_passes_counterexample:
  "withinWindow secondBurst
   \<and> addedElements ([childList [10]] @ concat (map snd secondBurst)) \<noteq> []
   \<and> runtimeId framePending
   \<and> frames framePending = 1
   \<and> length (sent (run (burst [childList [10]] secondBurst @ [Elapse 100, AnimationFrame])
                     framePending))
       = length (sent framePending) + 2"
  by code_simp

end
